theory Spec2Isabelle
  imports Main "HOL-Library.Char_ord" "HOL-Library.List_Lexorder" "HOL-Library.Multiset"
begin

section \<open>JavaScript values and their JSON texts\<close>

text \<open>
  The chaincode \<^verbatim>\<open>lib/assetTransfer.js\<close> builds plain JavaScript objects, turns them
  into JSON text and stores the text in the world state; it reads text back and parses it.
  A JavaScript value is modelled by \<open>jsval\<close>. An object is an association list in
  property-creation order with pairwise distinct keys; \<open>JUndefined\<close> is the value of a
  missing property.

  Scope of the model: a string is a list of code units below 256, compared code unit by
  code unit. A number is \<open>JNum n\<close>, an integer below \<open>2^53\<close> in magnitude, or
  \<open>JDec m e\<close>, the number \<open>m / 10^e\<close> where it is not an integer (\<open>e\<close> is positive and
  \<open>m\<close> no multiple of ten), has at most 15 significant digits and is at least \<open>10^-6\<close>
  in magnitude. A JavaScript number holds each of these distinctly and prints it back in
  plain decimal notation digit for digit; other numbers are rounded or printed with an
  exponent. A stored text whose value needs more than that, a longer or smaller number, a
  wider code unit, is recognised as JSON and marked as outside the model where a
  transaction reads it; nothing is stated about what the code does with it.
\<close>

datatype jsval =
    JUndefined
  | JNull
  | JBool bool
  | JNum int
  | JDec int nat
  | JStr string
  | JArr "jsval list"
  | JObj "(string \<times> jsval) list"

subsection \<open>Property access\<close>

definition obj_get :: "(string \<times> jsval) list \<Rightarrow> string \<Rightarrow> jsval" where
  "obj_get kvs k = (case map_of kvs k of None \<Rightarrow> JUndefined | Some v \<Rightarrow> v)"

text \<open>
  Assignment \<^verbatim>\<open>o[k] = v\<close>: an existing property keeps its place, a new one goes last.
\<close>

fun obj_set :: "(string \<times> jsval) list \<Rightarrow> string \<Rightarrow> jsval \<Rightarrow> (string \<times> jsval) list" where
  "obj_set [] k v = [(k, v)]"
| "obj_set ((k', v') # kvs) k v = (if k' = k then (k, v) # kvs else (k', v') # obj_set kvs k v)"

subsection \<open>Number and string literals\<close>

definition digit_char :: "nat \<Rightarrow> char" where
  "digit_char d = char_of (48 + d)"

fun digits :: "nat \<Rightarrow> string" where
  "digits n = (if n < 10 then [digit_char n] else digits (n div 10) @ [digit_char (n mod 10)])"

declare digits.simps [simp del]

definition number_to_string :: "int \<Rightarrow> string" where
  "number_to_string i = (if i < 0 then CHR ''-'' # digits (nat (- i)) else digits (nat i))"

text \<open>
  The number \<open>m / 10^e\<close> in plain decimal notation: the last \<open>e\<close> digits of \<open>m\<close> follow
  the point, after a zero and the zeros that are missing when \<open>m\<close> has no more than \<open>e\<close>
  digits.
\<close>

definition decimal_body :: "nat \<Rightarrow> nat \<Rightarrow> string" where
  "decimal_body n e =
     (let ds = digits n; k = length ds
      in if e < k then take (k - e) ds @ CHR ''.'' # drop (k - e) ds
         else CHR ''0'' # CHR ''.'' # replicate (e - k) CHR ''0'' @ ds)"

definition decimal_to_string :: "int \<Rightarrow> nat \<Rightarrow> string" where
  "decimal_to_string m e =
     (if m < 0 then CHR ''-'' # decimal_body (nat (- m)) e else decimal_body (nat m) e)"

definition hex_char :: "nat \<Rightarrow> char" where
  "hex_char d = (if d < 10 then char_of (48 + d) else char_of (87 + d))"

text \<open>
  \<^verbatim>\<open>JSON.stringify\<close> on one code unit of a string: the quotation mark and the reverse
  solidus are escaped, a control character gets its short escape or \<^verbatim>\<open>\u00XX\<close>.
\<close>

definition escape_char :: "char \<Rightarrow> string" where
  "escape_char c =
     (if c = CHR 0x22 then [CHR 0x5C, CHR 0x22]
      else if c = CHR 0x5C then [CHR 0x5C, CHR 0x5C]
      else if c = CHR 0x08 then [CHR 0x5C, CHR ''b'']
      else if c = CHR 0x0C then [CHR 0x5C, CHR ''f'']
      else if c = CHR 0x0A then [CHR 0x5C, CHR ''n'']
      else if c = CHR 0x0D then [CHR 0x5C, CHR ''r'']
      else if c = CHR 0x09 then [CHR 0x5C, CHR ''t'']
      else if (of_char c :: nat) < 32
        then [CHR 0x5C, CHR ''u'', CHR ''0'', CHR ''0'',
              hex_char ((of_char c :: nat) div 16), hex_char ((of_char c :: nat) mod 16)]
      else [c])"

definition quote :: "string \<Rightarrow> string" where
  "quote s = CHR 0x22 # concat (map escape_char s) @ [CHR 0x22]"

fun join_comma :: "string list \<Rightarrow> string" where
  "join_comma [] = []"
| "join_comma [x] = x"
| "join_comma (x # y # zs) = x @ CHR '','' # join_comma (y # zs)"

subsection \<open>The canonical encoding\<close>

text \<open>
  Modelled from the spec: the packages \<^verbatim>\<open>sort-keys-recursive\<close> and
  \<^verbatim>\<open>json-stringify-deterministic\<close> are required by the chaincode and are not part of
  the repository. The spec's canonical encoding algorithm gives both: the keys of every
  mapping are sorted in ascending lexicographic order at every nesting level, and the
  result is written without whitespace with the fields in sorted key order.
\<close>

fun sortKeysRecursive :: "jsval \<Rightarrow> jsval" where
  "sortKeysRecursive (JObj kvs) =
     JObj (sort_key fst (map (\<lambda>kv. (fst kv, sortKeysRecursive (snd kv))) kvs))"
| "sortKeysRecursive (JArr xs) = JArr (map sortKeysRecursive xs)"
| "sortKeysRecursive v = v"

text \<open>
  Modelled from the spec: \<^verbatim>\<open>stringify\<close> of \<^verbatim>\<open>json-stringify-deterministic\<close>. It visits
  the keys of an object in sorted order itself. As with \<^verbatim>\<open>JSON.stringify\<close>, a property
  whose value is \<^verbatim>\<open>undefined\<close> is left out, an \<^verbatim>\<open>undefined\<close> array element is
  written \<^verbatim>\<open>null\<close>, and the result for \<^verbatim>\<open>undefined\<close> itself is \<^verbatim>\<open>undefined\<close>
  (\<open>None\<close>).
\<close>

fun stringify :: "jsval \<Rightarrow> string option" where
  "stringify JUndefined = None"
| "stringify JNull = Some ''null''"
| "stringify (JBool b) = Some (if b then ''true'' else ''false'')"
| "stringify (JNum n) = Some (number_to_string n)"
| "stringify (JDec m e) = Some (decimal_to_string m e)"
| "stringify (JStr s) = Some (quote s)"
| "stringify (JArr xs) =
     Some (''['' @ join_comma (map (\<lambda>x. case stringify x of None \<Rightarrow> ''null'' | Some t \<Rightarrow> t) xs)
           @ '']'')"
| "stringify (JObj kvs) =
     Some (''{'' @ join_comma (concat (map
             (\<lambda>kv. case stringify (snd kv) of None \<Rightarrow> [] | Some t \<Rightarrow> [quote (fst kv) @ '':'' @ t])
             (sort_key fst kvs)))
           @ ''}'')"

subsection \<open>The runtime's \<^verbatim>\<open>JSON.stringify\<close>\<close>

text \<open>
  \<^verbatim>\<open>JSON.stringify\<close> visits the own properties of an object in the runtime's property
  order: the array indices (canonical decimal keys below \<open>2^32 - 1\<close>) in ascending
  numeric order, then the other keys in creation order.
\<close>

definition is_digit :: "char \<Rightarrow> bool" where
  "is_digit c = (CHR ''0'' \<le> c \<and> c \<le> CHR ''9'')"

definition digit_val :: "char \<Rightarrow> nat" where
  "digit_val c = of_char c - 48"

definition nat_of_digits :: "string \<Rightarrow> nat" where
  "nat_of_digits ds = foldl (\<lambda>n c. 10 * n + digit_val c) 0 ds"

definition is_array_index :: "string \<Rightarrow> bool" where
  "is_array_index k =
     (case k of
        [] \<Rightarrow> False
      | c # cs \<Rightarrow> list_all is_digit k \<and> (c \<noteq> CHR ''0'' \<or> cs = []) \<and> nat_of_digits k < 4294967295)"

definition own_properties :: "(string \<times> 'a) list \<Rightarrow> (string \<times> 'a) list" where
  "own_properties kvs =
     sort_key (\<lambda>kv. nat_of_digits (fst kv)) (filter (\<lambda>kv. is_array_index (fst kv)) kvs)
     @ filter (\<lambda>kv. \<not> is_array_index (fst kv)) kvs"

fun JSON_stringify :: "jsval \<Rightarrow> string option" where
  "JSON_stringify JUndefined = None"
| "JSON_stringify JNull = Some ''null''"
| "JSON_stringify (JBool b) = Some (if b then ''true'' else ''false'')"
| "JSON_stringify (JNum n) = Some (number_to_string n)"
| "JSON_stringify (JDec m e) = Some (decimal_to_string m e)"
| "JSON_stringify (JStr s) = Some (quote s)"
| "JSON_stringify (JArr xs) =
     Some (''['' @ join_comma (map (\<lambda>x. case JSON_stringify x of None \<Rightarrow> ''null'' | Some t \<Rightarrow> t) xs)
           @ '']'')"
| "JSON_stringify (JObj kvs) =
     Some (''{'' @ join_comma (concat (map
             (\<lambda>kt. case snd kt of None \<Rightarrow> [] | Some t \<Rightarrow> [quote (fst kt) @ '':'' @ t])
             (own_properties (map (\<lambda>kv. (fst kv, JSON_stringify (snd kv))) kvs))))
           @ ''}'')"

subsection \<open>The runtime's \<^verbatim>\<open>JSON.parse\<close>\<close>

text \<open>
  \<^verbatim>\<open>JSON.parse\<close> throws a \<^verbatim>\<open>SyntaxError\<close> on a text outside the JSON grammar and returns
  the value of the text otherwise. Two functions model it. \<open>JSON_parse\<close> is a
  recursive-descent parser that gives the value of a text within the scope of the model:
  there the value of a number literal, whatever its fraction and exponent, is a number
  of the model, and a \<^verbatim>\<open>\uXXXX\<close> escape names a code unit below 256. On every other
  text it gives \<open>None\<close>. \<open>JSON_syntax\<close>, after it, is the JSON grammar in full and tells
  the two kinds of other text apart: outside the grammar \<^verbatim>\<open>JSON.parse\<close> throws; a text of
  the grammar for which \<open>JSON_parse\<close> has no value (a number that the runtime rounds or
  prints with an exponent, a wider code unit) has a value that the model does not
  describe. The recursion of both is on a bound for the nesting depth and
  the number of elements, set from the length of the text.
\<close>

definition is_ws :: "char \<Rightarrow> bool" where
  "is_ws c = (c = CHR 0x20 \<or> c = CHR 0x09 \<or> c = CHR 0x0A \<or> c = CHR 0x0D)"

definition skip_ws :: "string \<Rightarrow> string" where
  "skip_ws s = dropWhile is_ws s"

definition hex_val :: "char \<Rightarrow> nat option" where
  "hex_val c =
     (if CHR ''0'' \<le> c \<and> c \<le> CHR ''9'' then Some (of_char c - 48)
      else if CHR ''a'' \<le> c \<and> c \<le> CHR ''f'' then Some (of_char c - 87)
      else if CHR ''A'' \<le> c \<and> c \<le> CHR ''F'' then Some (of_char c - 55)
      else None)"

definition unescape :: "char \<Rightarrow> char option" where
  "unescape e =
     (if e = CHR 0x22 then Some (CHR 0x22)
      else if e = CHR 0x5C then Some (CHR 0x5C)
      else if e = CHR ''/'' then Some (CHR ''/'')
      else if e = CHR ''b'' then Some (CHR 0x08)
      else if e = CHR ''f'' then Some (CHR 0x0C)
      else if e = CHR ''n'' then Some (CHR 0x0A)
      else if e = CHR ''r'' then Some (CHR 0x0D)
      else if e = CHR ''t'' then Some (CHR 0x09)
      else None)"

definition hex4 :: "char \<Rightarrow> char \<Rightarrow> char \<Rightarrow> char \<Rightarrow> nat option" where
  "hex4 a b c d =
     (case (hex_val a, hex_val b, hex_val c, hex_val d) of
        (Some x, Some y, Some z, Some w) \<Rightarrow> Some (((x * 16 + y) * 16 + z) * 16 + w)
      | _ \<Rightarrow> None)"

definition cons_char :: "char \<Rightarrow> (string \<times> string) option \<Rightarrow> (string \<times> string) option" where
  "cons_char c res = (case res of None \<Rightarrow> None | Some (t, r) \<Rightarrow> Some (c # t, r))"

text \<open>The characters after the opening quotation mark, up to the closing one.\<close>

fun parse_string_body :: "string \<Rightarrow> (string \<times> string) option" where
  "parse_string_body [] = None"
| "parse_string_body (c # r) =
     (if c = CHR 0x22 then Some ([], r)
      else if c = CHR 0x5C then
        (case r of
           [] \<Rightarrow> None
         | e # r1 \<Rightarrow>
             if e = CHR ''u'' then
               (case r1 of
                  h1 # h2 # h3 # h4 # r2 \<Rightarrow>
                    (case hex4 h1 h2 h3 h4 of
                       None \<Rightarrow> None
                     | Some n \<Rightarrow> if n < 256 then cons_char (char_of n) (parse_string_body r2) else None)
                | _ \<Rightarrow> None)
             else
               (case unescape e of
                  None \<Rightarrow> None
                | Some ch \<Rightarrow> cons_char ch (parse_string_body r1)))
      else if (of_char c :: nat) < 32 then None
      else cons_char c (parse_string_body r))"

text \<open>
  The value of a number literal. \<open>reduce\<close> cancels the zeros at the end of \<open>m\<close> against
  the \<open>e\<close> decimal places. \<open>number_value neg i x\<close> is the number \<open>i * 10^x\<close>, negative
  when \<open>neg\<close>: zero, an integer below \<open>2^53\<close>, or a number that is not an integer, with
  at most 15 significant digits and at least \<open>10^-6\<close>; \<open>None\<close> for a number outside the
  model. An integer with \<open>16 \<le> x\<close> is not below \<open>2^53\<close>, and more than 20 decimal
  places do not go with 15 digits and \<open>10^-6\<close>: these tests come first, so that no larger
  power of ten is computed.
\<close>

fun reduce :: "nat \<Rightarrow> nat \<Rightarrow> nat \<times> nat" where
  "reduce m 0 = (m, 0)"
| "reduce m (Suc e) = (if m mod 10 = 0 then reduce (m div 10) e else (m, Suc e))"

definition number_value :: "bool \<Rightarrow> nat \<Rightarrow> int \<Rightarrow> jsval option" where
  "number_value neg i x =
     (if i = 0 then Some (JNum 0)
      else if 0 \<le> x then
        (if 16 \<le> x then None
         else if 2 ^ 53 \<le> int i * 10 ^ nat x then None
         else Some (JNum (if neg then - (int i * 10 ^ nat x) else int i * 10 ^ nat x)))
      else
        (case reduce i (nat (- x)) of
           (m, e) \<Rightarrow>
             if e = 0 then
               (if 2 ^ 53 \<le> int m then None
                else Some (JNum (if neg then - int m else int m)))
             else if 21 \<le> e then None
             else if 10 ^ 15 \<le> int m \<or> int m * 10 ^ 6 < 10 ^ e then None
             else Some (JDec (if neg then - int m else int m) e)))"

definition with_rest :: "jsval option \<Rightarrow> string \<Rightarrow> (jsval \<times> string) option" where
  "with_rest v r = (case v of None \<Rightarrow> None | Some n \<Rightarrow> Some (n, r))"

text \<open>
  The parts of a number literal after the integer part. \<open>i\<close> is the number that the
  digits read so far spell, \<open>f\<close> how many of them follow the point.
\<close>

definition parse_exponent :: "bool \<Rightarrow> nat \<Rightarrow> nat \<Rightarrow> string \<Rightarrow> (jsval \<times> string) option" where
  "parse_exponent neg i f s =
     (case s of
        [] \<Rightarrow> with_rest (number_value neg i (- int f)) s
      | c # r \<Rightarrow>
          if c = CHR ''e'' \<or> c = CHR ''E'' then
            (case (case r of
                     [] \<Rightarrow> r
                   | g # r1 \<Rightarrow> if g = CHR ''+'' \<or> g = CHR ''-'' then r1 else r) of
               [] \<Rightarrow> None
             | d # r2 \<Rightarrow>
                 if is_digit d then
                   (let x = int (nat_of_digits (d # takeWhile is_digit r2))
                    in with_rest
                         (number_value neg i ((if take 1 r = ''-'' then - x else x) - int f))
                         (dropWhile is_digit r2))
                 else None)
          else with_rest (number_value neg i (- int f)) s)"

definition parse_fraction :: "bool \<Rightarrow> string \<Rightarrow> string \<Rightarrow> (jsval \<times> string) option" where
  "parse_fraction neg ip s =
     (case s of
        [] \<Rightarrow> parse_exponent neg (nat_of_digits ip) 0 s
      | c # r \<Rightarrow>
          if c = CHR ''.'' then
            (case r of
               [] \<Rightarrow> None
             | d # r1 \<Rightarrow>
                 if is_digit d then
                   parse_exponent neg (nat_of_digits (ip @ d # takeWhile is_digit r1))
                     (Suc (length (takeWhile is_digit r1))) (dropWhile is_digit r1)
                 else None)
          else parse_exponent neg (nat_of_digits ip) 0 s)"

definition parse_unsigned :: "bool \<Rightarrow> string \<Rightarrow> (jsval \<times> string) option" where
  "parse_unsigned neg s =
     (case s of
        [] \<Rightarrow> None
      | c # r \<Rightarrow>
          if c = CHR ''0'' then parse_fraction neg ''0'' r
          else if is_digit c then parse_fraction neg (takeWhile is_digit s) (dropWhile is_digit s)
          else None)"

definition parse_number :: "string \<Rightarrow> (jsval \<times> string) option" where
  "parse_number s =
     (case s of
        [] \<Rightarrow> None
      | c # r \<Rightarrow> if c = CHR ''-'' then parse_unsigned True r else parse_unsigned False s)"

definition parse_literal :: "string \<Rightarrow> (jsval \<times> string) option" where
  "parse_literal s =
     (if take 4 s = ''true'' then Some (JBool True, drop 4 s)
      else if take 5 s = ''false'' then Some (JBool False, drop 5 s)
      else if take 4 s = ''null'' then Some (JNull, drop 4 s)
      else parse_number s)"

fun parse_value :: "nat \<Rightarrow> string \<Rightarrow> (jsval \<times> string) option"
  and parse_elements :: "nat \<Rightarrow> jsval list \<Rightarrow> string \<Rightarrow> (jsval \<times> string) option"
  and parse_members :: "nat \<Rightarrow> (string \<times> jsval) list \<Rightarrow> string \<Rightarrow> (jsval \<times> string) option"
where
  "parse_value 0 s = None"
| "parse_value (Suc n) s =
     (case skip_ws s of
        [] \<Rightarrow> None
      | c # r \<Rightarrow>
          if c = CHR ''{'' then
            (case skip_ws r of
               [] \<Rightarrow> None
             | d # r1 \<Rightarrow> if d = CHR ''}'' then Some (JObj [], r1) else parse_members n [] (d # r1))
          else if c = CHR ''['' then
            (case skip_ws r of
               [] \<Rightarrow> None
             | d # r1 \<Rightarrow> if d = CHR '']'' then Some (JArr [], r1) else parse_elements n [] (d # r1))
          else if c = CHR 0x22 then
            (case parse_string_body r of None \<Rightarrow> None | Some (t, r1) \<Rightarrow> Some (JStr t, r1))
          else parse_literal (c # r))"
| "parse_elements 0 acc s = None"
| "parse_elements (Suc n) acc s =
     (case parse_value n s of
        None \<Rightarrow> None
      | Some (v, r) \<Rightarrow>
          (case skip_ws r of
             [] \<Rightarrow> None
           | c # r1 \<Rightarrow>
               if c = CHR '','' then parse_elements n (acc @ [v]) r1
               else if c = CHR '']'' then Some (JArr (acc @ [v]), r1)
               else None))"
| "parse_members 0 acc s = None"
| "parse_members (Suc n) acc s =
     (case skip_ws s of
        [] \<Rightarrow> None
      | q # r \<Rightarrow>
          if q \<noteq> CHR 0x22 then None
          else
            (case parse_string_body r of
               None \<Rightarrow> None
             | Some (k, r1) \<Rightarrow>
                 (case skip_ws r1 of
                    [] \<Rightarrow> None
                  | c # r2 \<Rightarrow>
                      if c \<noteq> CHR '':'' then None
                      else
                        (case parse_value n r2 of
                           None \<Rightarrow> None
                         | Some (v, r3) \<Rightarrow>
                             (case skip_ws r3 of
                                [] \<Rightarrow> None
                              | d # r4 \<Rightarrow>
                                  if d = CHR '','' then parse_members n (obj_set acc k v) r4
                                  else if d = CHR ''}'' then Some (JObj (obj_set acc k v), r4)
                                  else None)))))"

definition JSON_parse :: "string \<Rightarrow> jsval option" where
  "JSON_parse s =
     (case parse_value (2 * length s + 2) s of
        None \<Rightarrow> None
      | Some (v, r) \<Rightarrow> if skip_ws r = [] then Some v else None)"

subsection \<open>The JSON grammar\<close>

text \<open>
  The grammar that \<^verbatim>\<open>JSON.parse\<close> accepts, as a recogniser with the structure of the
  parser: each function gives the rest of the input after the construct it names, and
  \<open>None\<close> where the input does not start with one. A string may hold any
  \<^verbatim>\<open>\uXXXX\<close> escape; a number is an optional minus sign, an integer part without a
  leading zero, an optional fraction and an optional exponent.
\<close>

fun skip_string_body :: "string \<Rightarrow> string option" where
  "skip_string_body [] = None"
| "skip_string_body (c # r) =
     (if c = CHR 0x22 then Some r
      else if c = CHR 0x5C then
        (case r of
           [] \<Rightarrow> None
         | e # r1 \<Rightarrow>
             if e = CHR ''u'' then
               (case r1 of
                  h1 # h2 # h3 # h4 # r2 \<Rightarrow>
                    (case hex4 h1 h2 h3 h4 of None \<Rightarrow> None | Some n \<Rightarrow> skip_string_body r2)
                | _ \<Rightarrow> None)
             else
               (case unescape e of None \<Rightarrow> None | Some ch \<Rightarrow> skip_string_body r1))
      else if (of_char c :: nat) < 32 then None
      else skip_string_body r)"

definition skip_exponent :: "string \<Rightarrow> string option" where
  "skip_exponent s =
     (case s of
        [] \<Rightarrow> Some s
      | c # r \<Rightarrow>
          if c = CHR ''e'' \<or> c = CHR ''E'' then
            (case (case r of
                     [] \<Rightarrow> r
                   | g # r1 \<Rightarrow> if g = CHR ''+'' \<or> g = CHR ''-'' then r1 else r) of
               [] \<Rightarrow> None
             | d # r2 \<Rightarrow> if is_digit d then Some (dropWhile is_digit r2) else None)
          else Some s)"

definition skip_fraction :: "string \<Rightarrow> string option" where
  "skip_fraction s =
     (case s of
        [] \<Rightarrow> Some s
      | c # r \<Rightarrow>
          if c = CHR ''.'' then
            (case r of
               [] \<Rightarrow> None
             | d # r1 \<Rightarrow> if is_digit d then skip_exponent (dropWhile is_digit r1) else None)
          else skip_exponent s)"

definition skip_unsigned :: "string \<Rightarrow> string option" where
  "skip_unsigned s =
     (case s of
        [] \<Rightarrow> None
      | c # r \<Rightarrow>
          if c = CHR ''0'' then skip_fraction r
          else if is_digit c then skip_fraction (dropWhile is_digit s)
          else None)"

definition skip_number :: "string \<Rightarrow> string option" where
  "skip_number s =
     (case s of
        [] \<Rightarrow> None
      | c # r \<Rightarrow> if c = CHR ''-'' then skip_unsigned r else skip_unsigned s)"

definition skip_literal :: "string \<Rightarrow> string option" where
  "skip_literal s =
     (if take 4 s = ''true'' then Some (drop 4 s)
      else if take 5 s = ''false'' then Some (drop 5 s)
      else if take 4 s = ''null'' then Some (drop 4 s)
      else skip_number s)"

fun skip_value :: "nat \<Rightarrow> string \<Rightarrow> string option"
  and skip_elements :: "nat \<Rightarrow> string \<Rightarrow> string option"
  and skip_members :: "nat \<Rightarrow> string \<Rightarrow> string option"
where
  "skip_value 0 s = None"
| "skip_value (Suc n) s =
     (case skip_ws s of
        [] \<Rightarrow> None
      | c # r \<Rightarrow>
          if c = CHR ''{'' then
            (case skip_ws r of
               [] \<Rightarrow> None
             | d # r1 \<Rightarrow> if d = CHR ''}'' then Some r1 else skip_members n (d # r1))
          else if c = CHR ''['' then
            (case skip_ws r of
               [] \<Rightarrow> None
             | d # r1 \<Rightarrow> if d = CHR '']'' then Some r1 else skip_elements n (d # r1))
          else if c = CHR 0x22 then skip_string_body r
          else skip_literal (c # r))"
| "skip_elements 0 s = None"
| "skip_elements (Suc n) s =
     (case skip_value n s of
        None \<Rightarrow> None
      | Some r \<Rightarrow>
          (case skip_ws r of
             [] \<Rightarrow> None
           | c # r1 \<Rightarrow>
               if c = CHR '','' then skip_elements n r1
               else if c = CHR '']'' then Some r1
               else None))"
| "skip_members 0 s = None"
| "skip_members (Suc n) s =
     (case skip_ws s of
        [] \<Rightarrow> None
      | q # r \<Rightarrow>
          if q \<noteq> CHR 0x22 then None
          else
            (case skip_string_body r of
               None \<Rightarrow> None
             | Some r1 \<Rightarrow>
                 (case skip_ws r1 of
                    [] \<Rightarrow> None
                  | c # r2 \<Rightarrow>
                      if c \<noteq> CHR '':'' then None
                      else
                        (case skip_value n r2 of
                           None \<Rightarrow> None
                         | Some r3 \<Rightarrow>
                             (case skip_ws r3 of
                                [] \<Rightarrow> None
                              | d # r4 \<Rightarrow>
                                  if d = CHR '','' then skip_members n r4
                                  else if d = CHR ''}'' then Some r4
                                  else None)))))"

definition JSON_syntax :: "string \<Rightarrow> bool" where
  "JSON_syntax s =
     (case skip_value (2 * length s + 2) s of
        None \<Rightarrow> False
      | Some r \<Rightarrow> skip_ws r = [])"

subsection \<open>JSON values and the value a text denotes\<close>

text \<open>
  A JSON value is a value without \<^verbatim>\<open>undefined\<close> in which every object has each key once
  and every number is a number of the model; these are the values \<open>JSON_parse\<close>
  returns. \<open>print\<close> writes a JSON value without
  whitespace, fields and elements in the order of the lists. \<open>json_of\<close> is the JSON
  value that the canonical text of a value denotes: keys in sorted order, the properties
  that are \<^verbatim>\<open>undefined\<close> dropped, and \<^verbatim>\<open>null\<close> for an \<^verbatim>\<open>undefined\<close> array element.
\<close>

fun well_formed :: "jsval \<Rightarrow> bool" where
  "well_formed (JObj kvs) \<longleftrightarrow> distinct (map fst kvs) \<and> (\<forall>kv \<in> set kvs. well_formed (snd kv))"
| "well_formed (JArr xs) \<longleftrightarrow> (\<forall>x \<in> set xs. well_formed x)"
| "well_formed (JNum n) \<longleftrightarrow> \<bar>n\<bar> < 2 ^ 53"
| "well_formed (JDec m e) \<longleftrightarrow>
     \<not> 10 dvd m \<and> 0 < e \<and> \<bar>m\<bar> < 10 ^ 15 \<and> 10 ^ e \<le> \<bar>m\<bar> * 10 ^ 6"
| "well_formed v \<longleftrightarrow> True"

fun plain :: "jsval \<Rightarrow> bool" where
  "plain JUndefined \<longleftrightarrow> False"
| "plain (JNum n) \<longleftrightarrow> \<bar>n\<bar> < 2 ^ 53"
| "plain (JDec m e) \<longleftrightarrow>
     \<not> 10 dvd m \<and> 0 < e \<and> \<bar>m\<bar> < 10 ^ 15 \<and> 10 ^ e \<le> \<bar>m\<bar> * 10 ^ 6"
| "plain (JObj kvs) \<longleftrightarrow> distinct (map fst kvs) \<and> (\<forall>kv \<in> set kvs. plain (snd kv))"
| "plain (JArr xs) \<longleftrightarrow> (\<forall>x \<in> set xs. plain x)"
| "plain v \<longleftrightarrow> True"

fun print :: "jsval \<Rightarrow> string" where
  "print JUndefined = ''null''"
| "print JNull = ''null''"
| "print (JBool b) = (if b then ''true'' else ''false'')"
| "print (JNum n) = number_to_string n"
| "print (JDec m e) = decimal_to_string m e"
| "print (JStr s) = quote s"
| "print (JArr xs) = ''['' @ join_comma (map print xs) @ '']''"
| "print (JObj kvs) =
     ''{'' @ join_comma (map (\<lambda>kv. quote (fst kv) @ '':'' @ print (snd kv)) kvs) @ ''}''"

fun json_of :: "jsval \<Rightarrow> jsval" where
  "json_of JUndefined = JNull"
| "json_of (JArr xs) = JArr (map json_of xs)"
| "json_of (JObj kvs) =
     JObj (map (\<lambda>kv. (fst kv, json_of (snd kv)))
               (filter (\<lambda>kv. snd kv \<noteq> JUndefined) (sort_key fst kvs)))"
| "json_of v = v"

text \<open>What may follow a value inside a JSON text: nothing, a comma or a closing bracket.\<close>

definition delimited :: "string \<Rightarrow> bool" where
  "delimited r = (case r of [] \<Rightarrow> True | c # _ \<Rightarrow> c = CHR '','' \<or> c = CHR '']'' \<or> c = CHR ''}'')"

subsection \<open>Records that are logically the same\<close>

text \<open>
  Two values are logically the same record when they differ at most in the order in which
  the fields of their objects were inserted, at any nesting level: both objects have each
  key once, the same keys, and under each key logically the same value.
\<close>

fun same_value :: "jsval \<Rightarrow> jsval \<Rightarrow> bool" where
  "same_value (JObj xs) (JObj ys) \<longleftrightarrow>
     distinct (map fst xs) \<and> distinct (map fst ys) \<and> set (map fst xs) = set (map fst ys)
     \<and> (\<forall>kv \<in> set xs. same_value (snd kv) (obj_get ys (fst kv)))"
| "same_value (JArr xs) (JArr ys) \<longleftrightarrow> list_all2 same_value xs ys"
| "same_value a b \<longleftrightarrow> a = b"

section \<open>The world state\<close>

text \<open>
  Modelled from the spec: the ledger behind \<^verbatim>\<open>ctx.stub\<close> is the platform's and not part
  of the repository. The spec describes it as a persistence substrate with get, put, delete
  and range-scan primitives, one current value per key, the scan lexicographically ordered
  by key over the whole key space. It is an association list read through \<open>map_of\<close>,
  with \<^verbatim>\<open>getState\<close>, \<^verbatim>\<open>putState\<close>, \<^verbatim>\<open>deleteState\<close>, and the range query
  \<^verbatim>\<open>getStateByRange('', '')\<close>, which yields every key once with its value, in
  ascending key order.
\<close>

type_synonym world_state = "(string \<times> string) list"

definition getState :: "world_state \<Rightarrow> string \<Rightarrow> string option" where
  "getState s k = map_of s k"

definition putState :: "world_state \<Rightarrow> string \<Rightarrow> string \<Rightarrow> world_state" where
  "putState s k v = (k, v) # filter (\<lambda>kv. fst kv \<noteq> k) s"

definition deleteState :: "world_state \<Rightarrow> string \<Rightarrow> world_state" where
  "deleteState s k = filter (\<lambda>kv. fst kv \<noteq> k) s"

definition getStateByRange :: "world_state \<Rightarrow> (string \<times> string) list" where
  "getStateByRange s =
     concat (map (\<lambda>k. case map_of s k of None \<Rightarrow> [] | Some v \<Rightarrow> [(k, v)])
                 (sort (remdups (map fst s))))"

section \<open>The contract \<^verbatim>\<open>AssetTransfer\<close>\<close>

text \<open>
  Every transaction takes the world state and returns the world state with the writes it
  made, and either the exception thrown (\<open>Inl\<close>) or the value returned (\<open>Inr\<close>).
  \<open>Unmodelled\<close> is no exception of the code: it marks a run that reads a stored text
  whose value lies outside the scope of the model, about which the model says nothing.
\<close>

datatype error =
    AlreadyExists string
  | NotFound string
  | SyntaxError
  | TypeError
  | Unmodelled

text \<open>
  Where \<open>JSON_parse\<close> has no value for a text: the \<^verbatim>\<open>SyntaxError\<close> that \<^verbatim>\<open>JSON.parse\<close>
  throws when the text is outside the JSON grammar, and \<open>Unmodelled\<close> when it is inside.
\<close>

definition JSON_parse_error :: "string \<Rightarrow> error" where
  "JSON_parse_error text = (if JSON_syntax text then Unmodelled else SyntaxError)"

text \<open>\<^verbatim>\<open>Buffer.from(text)\<close>: a \<^verbatim>\<open>TypeError\<close> when the text is \<^verbatim>\<open>undefined\<close>.\<close>

definition Buffer_from :: "string option \<Rightarrow> error + string" where
  "Buffer_from t = (case t of None \<Rightarrow> Inl TypeError | Some b \<Rightarrow> Inr b)"

text \<open>
  Reading the property \<^verbatim>\<open>asset.k\<close> of a parsed value. None of the prototypes has one of
  the names the contract reads, so a value that is not an object gives \<^verbatim>\<open>undefined\<close>,
  and \<^verbatim>\<open>null\<close> raises.
\<close>

definition get_property :: "jsval \<Rightarrow> string \<Rightarrow> error + jsval" where
  "get_property a k =
     (case a of
        JObj kvs \<Rightarrow> Inr (obj_get kvs k)
      | JNull \<Rightarrow> Inl TypeError
      | JUndefined \<Rightarrow> Inl TypeError
      | _ \<Rightarrow> Inr JUndefined)"

text \<open>
  The assignment \<^verbatim>\<open>asset.k = v\<close> under \<^verbatim>\<open>'use strict'\<close>: a \<^verbatim>\<open>TypeError\<close> on a
  primitive value. On an array it adds a named property, which no encoding of the array
  shows, so the array is kept as it is.
\<close>

definition set_property :: "jsval \<Rightarrow> string \<Rightarrow> jsval \<Rightarrow> error + jsval" where
  "set_property a k v =
     (case a of
        JObj kvs \<Rightarrow> Inr (JObj (obj_set kvs k v))
      | JArr xs \<Rightarrow> Inr (JArr xs)
      | _ \<Rightarrow> Inl TypeError)"

definition seed_assets :: "(string \<times> jsval) list list" where
  "seed_assets =
     [[(''ID'', JStr ''icecream1''), (''Flavor'', JStr ''chocolate''), (''Size'', JStr ''medium''),
       (''Client'', JStr ''Paola''), (''Cone'', JStr ''sugar''), (''Value'', JNum 10000)],
      [(''ID'', JStr ''icecream2''), (''Flavor'', JStr ''vanilla''), (''Size'', JStr ''small''),
       (''Client'', JStr ''Martha''), (''Cone'', JStr ''waffle''), (''Value'', JNum 6000)],
      [(''ID'', JStr ''icecream3''), (''Flavor'', JStr ''mint''), (''Size'', JStr ''big''),
       (''Client'', JStr ''Anna''), (''Cone'', JStr ''cake''), (''Value'', JNum 15000)],
      [(''ID'', JStr ''icecream4''), (''Flavor'', JStr ''strawberry''), (''Size'', JStr ''big''),
       (''Client'', JStr ''Pablo''), (''Cone'', JStr ''waffle''), (''Value'', JNum 15000)],
      [(''ID'', JStr ''icecream5''), (''Flavor'', JStr ''vanilla''), (''Size'', JStr ''medium''),
       (''Client'', JStr ''Manuel''), (''Cone'', JStr ''cake''), (''Value'', JNum 10000)],
      [(''ID'', JStr ''icecream6''), (''Flavor'', JStr ''chocolate''), (''Size'', JStr ''small''),
       (''Client'', JStr ''Augusto''), (''Cone'', JStr ''sugar''), (''Value'', JNum 6000)],
      [(''ID'', JStr ''icecream7''), (''Flavor'', JStr ''mint''), (''Size'', JStr ''big''),
       (''Client'', JStr ''Victoria''), (''Cone'', JStr ''waffle''), (''Value'', JNum 15000)],
      [(''ID'', JStr ''icecream8''), (''Flavor'', JStr ''vanilla''), (''Size'', JStr ''small''),
       (''Client'', JStr ''Sandra''), (''Cone'', JStr ''cake''), (''Value'', JNum 6000)],
      [(''ID'', JStr ''icecream9''), (''Flavor'', JStr ''brownie''), (''Size'', JStr ''medium''),
       (''Client'', JStr ''Hector''), (''Cone'', JStr ''cake''), (''Value'', JNum 10000)]]"

text \<open>
  The loop of \<^verbatim>\<open>InitLedger\<close>: each asset gets \<^verbatim>\<open>docType = 'asset'\<close> and is stored
  under its \<^verbatim>\<open>ID\<close> in the canonical encoding.
\<close>

fun init_loop :: "world_state \<Rightarrow> (string \<times> jsval) list list \<Rightarrow> world_state \<times> (error + unit)" where
  "init_loop s [] = (s, Inr ())"
| "init_loop s (asset # assets) =
     (let asset' = obj_set asset ''docType'' (JStr ''asset'') in
      case obj_get asset' ''ID'' of
        JStr k \<Rightarrow>
          (case Buffer_from (stringify (sortKeysRecursive (JObj asset'))) of
             Inl e \<Rightarrow> (s, Inl e)
           | Inr b \<Rightarrow> init_loop (putState s k b) assets)
      | _ \<Rightarrow> (s, Inl TypeError))"

definition InitLedger :: "world_state \<Rightarrow> world_state \<times> (error + unit)" where
  "InitLedger s = init_loop s seed_assets"

definition AssetExists :: "world_state \<Rightarrow> string \<Rightarrow> bool" where
  "AssetExists s k = (case getState s k of None \<Rightarrow> False | Some assetJSON \<Rightarrow> length assetJSON > 0)"

definition CreateAsset ::
  "world_state \<Rightarrow> string \<Rightarrow> string \<Rightarrow> string \<Rightarrow> string \<Rightarrow> string \<Rightarrow> string
     \<Rightarrow> world_state \<times> (error + string option)" where
  "CreateAsset s k flavor size' client cone value =
     (if AssetExists s k then (s, Inl (AlreadyExists k))
      else
        let asset = [(''ID'', JStr k), (''Flavor'', JStr flavor), (''Size'', JStr size'),
                     (''Client'', JStr client), (''Cone'', JStr cone), (''Value'', JStr value)]
        in case Buffer_from (stringify (sortKeysRecursive (JObj asset))) of
             Inl e \<Rightarrow> (s, Inl e)
           | Inr b \<Rightarrow> (putState s k b, Inr (JSON_stringify (JObj asset))))"

definition ReadAsset :: "world_state \<Rightarrow> string \<Rightarrow> error + string" where
  "ReadAsset s k =
     (case getState s k of
        None \<Rightarrow> Inl (NotFound k)
      | Some assetJSON \<Rightarrow> if length assetJSON = 0 then Inl (NotFound k) else Inr assetJSON)"

definition UpdateAsset :: "world_state \<Rightarrow> string \<Rightarrow> string \<Rightarrow> world_state \<times> (error + unit)" where
  "UpdateAsset s k flavor =
     (if \<not> AssetExists s k then (s, Inl (NotFound k))
      else
        case ReadAsset s k of
          Inl e \<Rightarrow> (s, Inl e)
        | Inr assetString \<Rightarrow>
            (case JSON_parse assetString of
               None \<Rightarrow> (s, Inl (JSON_parse_error assetString))
             | Some asset \<Rightarrow>
                 (case (get_property asset ''Size'', get_property asset ''Client'',
                        get_property asset ''Cone'', get_property asset ''Value'') of
                    (Inr sz, Inr cl, Inr co, Inr va) \<Rightarrow>
                      (let updatedAsset =
                             [(''ID'', JStr k), (''Flavor'', JStr flavor), (''Size'', sz),
                              (''Client'', cl), (''Cone'', co), (''Value'', va)]
                       in case Buffer_from (stringify (sortKeysRecursive (JObj updatedAsset))) of
                            Inl e \<Rightarrow> (s, Inl e)
                          | Inr b \<Rightarrow> (putState s k b, Inr ()))
                  | _ \<Rightarrow> (s, Inl TypeError))))"

definition DeleteAsset :: "world_state \<Rightarrow> string \<Rightarrow> world_state \<times> (error + unit)" where
  "DeleteAsset s k =
     (if \<not> AssetExists s k then (s, Inl (NotFound k)) else (deleteState s k, Inr ()))"

definition TransferAsset :: "world_state \<Rightarrow> string \<Rightarrow> string \<Rightarrow> world_state \<times> (error + jsval)" where
  "TransferAsset s k newOwner =
     (case ReadAsset s k of
        Inl e \<Rightarrow> (s, Inl e)
      | Inr assetString \<Rightarrow>
          (case JSON_parse assetString of
             None \<Rightarrow> (s, Inl (JSON_parse_error assetString))
           | Some asset \<Rightarrow>
               (case get_property asset ''Client'' of
                  Inl e \<Rightarrow> (s, Inl e)
                | Inr oldOwner \<Rightarrow>
                    (case set_property asset ''Client'' (JStr newOwner) of
                       Inl e \<Rightarrow> (s, Inl e)
                     | Inr asset' \<Rightarrow>
                         (case Buffer_from (stringify (sortKeysRecursive asset')) of
                            Inl e \<Rightarrow> (s, Inl e)
                          | Inr b \<Rightarrow> (putState s k b, Inr oldOwner))))))"

text \<open>
  The loop of \<^verbatim>\<open>GetAllAssets\<close> over the iterator: each value is parsed, and where
  \<^verbatim>\<open>JSON.parse\<close> throws, the \<^verbatim>\<open>catch\<close> block makes the text itself the record. The
  record of a text whose value lies outside the model is \<open>Inl Unmodelled\<close>.
\<close>

definition parse_record :: "string \<Rightarrow> error + jsval" where
  "parse_record strValue =
     (case JSON_parse strValue of
        Some r \<Rightarrow> Inr r
      | None \<Rightarrow>
          (case JSON_parse_error strValue of
             SyntaxError \<Rightarrow> Inr (JStr strValue)
           | e \<Rightarrow> Inl e))"

fun scan_loop :: "(error + jsval) list \<Rightarrow> (string \<times> string) list \<Rightarrow> (error + jsval) list" where
  "scan_loop allResults [] = allResults"
| "scan_loop allResults (result # rest) =
     (let strValue = snd result; record = parse_record strValue
      in scan_loop (allResults @ [record]) rest)"

definition all_results :: "world_state \<Rightarrow> (error + jsval) list" where
  "all_results s = scan_loop [] (getStateByRange s)"

text \<open>
  The array \<^verbatim>\<open>allResults\<close> when every record is within the model, and the first mark
  otherwise.
\<close>

fun modelled :: "(error + jsval) list \<Rightarrow> error + jsval list" where
  "modelled [] = Inr []"
| "modelled (x # xs) =
     (case x of
        Inl e \<Rightarrow> Inl e
      | Inr r \<Rightarrow> (case modelled xs of Inl e \<Rightarrow> Inl e | Inr rs \<Rightarrow> Inr (r # rs)))"

definition GetAllAssets :: "world_state \<Rightarrow> error + string option" where
  "GetAllAssets s =
     (case modelled (all_results s) of
        Inl e \<Rightarrow> Inl e
      | Inr allResults \<Rightarrow> Inr (JSON_stringify (JArr allResults)))"

section \<open>Properties of the world state\<close>

lemma map_of_filter_key:
  "map_of (filter (\<lambda>kv. fst kv \<noteq> k) s) k' = (if k' = k then None else map_of s k')"
  by (induction s) auto

lemma getState_putState:
  "getState (putState s k v) k' = (if k' = k then Some v else getState s k')"
  by (simp add: getState_def putState_def map_of_filter_key)

lemma getState_deleteState:
  "getState (deleteState s k) k' = (if k' = k then None else getState s k')"
  by (simp add: getState_def deleteState_def map_of_filter_key)

lemma AssetExists_iff:
  "AssetExists s k \<longleftrightarrow> (\<exists>v. getState s k = Some v \<and> v \<noteq> [])"
  by (auto simp: AssetExists_def split: option.splits)

lemma ReadAsset_iff:
  "ReadAsset s k = Inl (NotFound k) \<longleftrightarrow> \<not> AssetExists s k"
  by (auto simp: ReadAsset_def AssetExists_def split: option.splits)

lemma ReadAsset_exists:
  "AssetExists s k \<Longrightarrow> ReadAsset s k = Inr (the (getState s k))"
  by (auto simp: ReadAsset_def AssetExists_def split: option.splits)

lemma AssetExists_putState:
  "AssetExists (putState s k b) k' \<longleftrightarrow> (if k' = k then b \<noteq> [] else AssetExists s k')"
  by (simp add: AssetExists_def getState_putState)

lemma AssetExists_deleteState:
  "AssetExists (deleteState s k) k' \<longleftrightarrow> k' \<noteq> k \<and> AssetExists s k'"
  by (simp add: AssetExists_def getState_deleteState)

lemma range_keys:
  "getStateByRange s = map (\<lambda>k. (k, the (map_of s k))) (sort (remdups (map fst s)))"
proof -
  have "\<And>ks. set ks \<subseteq> fst ` set s \<Longrightarrow>
     concat (map (\<lambda>k. case map_of s k of None \<Rightarrow> [] | Some v \<Rightarrow> [(k, v)]) ks)
       = map (\<lambda>k. (k, the (map_of s k))) ks"
  proof -
    fix ks show "set ks \<subseteq> fst ` set s \<Longrightarrow>
     concat (map (\<lambda>k. case map_of s k of None \<Rightarrow> [] | Some v \<Rightarrow> [(k, v)]) ks)
       = map (\<lambda>k. (k, the (map_of s k))) ks"
      by (induction ks) (auto simp: map_of_eq_None_iff split: option.splits)
  qed
  then show ?thesis by (simp add: getStateByRange_def)
qed

lemma range_fst: "map fst (getStateByRange s) = sort (remdups (map fst s))"
  by (simp add: range_keys comp_def)

lemma range_sorted: "sorted_wrt (<) (map fst (getStateByRange s))"
  by (simp add: range_fst strict_sorted_iff)

lemma range_map_of: "map_of (getStateByRange s) = getState s"
proof
  fix k
  show "map_of (getStateByRange s) k = getState s k"
  proof (cases "k \<in> fst ` set s")
    case True
    then obtain v where v: "map_of s k = Some v"
      by (metis map_of_eq_None_iff not_Some_eq)
    have "map_of (map (\<lambda>k. (k, the (map_of s k))) (sort (remdups (map fst s)))) k
            = Some (the (map_of s k))"
      using True by (intro map_of_map_restrict [THEN fun_cong, THEN trans]) (auto simp: restrict_map_def)
    then show ?thesis using v by (simp add: range_keys getState_def)
  next
    case False
    then have a: "map_of s k = None" by (simp add: map_of_eq_None_iff)
    have "k \<notin> fst ` set (getStateByRange s)"
      using False by (simp add: range_keys image_image)
    then have "map_of (getStateByRange s) k = None" by (simp add: map_of_eq_None_iff)
    then show ?thesis using a by (simp add: getState_def)
  qed
qed

lemma range_delete:
  "getStateByRange (deleteState s k) = filter (\<lambda>kv. fst kv \<noteq> k) (getStateByRange s)"
proof -
  have keys: "sort (remdups (map fst (filter (\<lambda>kv. fst kv \<noteq> k) s)))
                = filter (\<lambda>k'. k' \<noteq> k) (sort (remdups (map fst s)))"
  proof -
    have "map fst (filter (\<lambda>kv. fst kv \<noteq> k) s) = filter (\<lambda>k'. k' \<noteq> k) (map fst s)"
      by (simp add: filter_map comp_def)
    then show ?thesis by (simp add: remdups_filter filter_sort)
  qed
  have "\<And>ks. concat (map (\<lambda>k'. case map_of (filter (\<lambda>kv. fst kv \<noteq> k) s) k' of
                                   None \<Rightarrow> [] | Some v \<Rightarrow> [(k', v)]) (filter (\<lambda>k'. k' \<noteq> k) ks))
       = filter (\<lambda>kv. fst kv \<noteq> k)
           (concat (map (\<lambda>k'. case map_of s k' of None \<Rightarrow> [] | Some v \<Rightarrow> [(k', v)]) ks))"
  proof -
    fix ks show "concat (map (\<lambda>k'. case map_of (filter (\<lambda>kv. fst kv \<noteq> k) s) k' of
                                   None \<Rightarrow> [] | Some v \<Rightarrow> [(k', v)]) (filter (\<lambda>k'. k' \<noteq> k) ks))
       = filter (\<lambda>kv. fst kv \<noteq> k)
           (concat (map (\<lambda>k'. case map_of s k' of None \<Rightarrow> [] | Some v \<Rightarrow> [(k', v)]) ks))"
      by (induction ks) (auto simp: map_of_filter_key split: option.splits)
  qed
  then show ?thesis by (simp add: getStateByRange_def deleteState_def keys)
qed

lemma scan_loop_map: "scan_loop acc kvs = acc @ map (\<lambda>kv. parse_record (snd kv)) kvs"
  by (induction kvs arbitrary: acc) (simp_all add: Let_def)

lemma all_results_map: "all_results s = map (\<lambda>kv. parse_record (snd kv)) (getStateByRange s)"
  by (simp add: all_results_def scan_loop_map)

lemma length_filter_remove:
  "distinct xs \<Longrightarrow> k \<in> set xs \<Longrightarrow> length (filter (\<lambda>k'. k' \<noteq> k) xs) + 1 = length xs"
proof (induction xs)
  case Nil
  then show ?case by simp
next
  case (Cons x xs)
  show ?case
  proof (cases "x = k")
    case True
    with Cons.prems have "k \<notin> set xs" by simp
    then have "filter (\<lambda>k'. k' \<noteq> k) xs = xs" by (auto simp: filter_id_conv)
    with True show ?thesis by simp
  next
    case False
    with Cons show ?thesis by simp
  qed
qed

section \<open>Properties of the canonical encoding\<close>

lemma quote_keys:
  \<open>quote ''ID'' = ''"ID"''\<close>
  \<open>quote ''Flavor'' = ''"Flavor"''\<close>
  \<open>quote ''Size'' = ''"Size"''\<close>
  \<open>quote ''Client'' = ''"Client"''\<close>
  \<open>quote ''Cone'' = ''"Cone"''\<close>
  \<open>quote ''Value'' = ''"Value"''\<close>
  \<open>quote ''docType'' = ''"docType"''\<close>
  by (simp_all add: quote_def escape_char_def)

lemma canonical_created:
  \<open>stringify (sortKeysRecursive (JObj
        [(''ID'', JStr k), (''Flavor'', JStr f), (''Size'', JStr sz),
         (''Client'', JStr c), (''Cone'', JStr co), (''Value'', JStr v)]))
   = Some (''{"Client":'' @ quote c @ '',"Cone":'' @ quote co @ '',"Flavor":'' @ quote f
           @ '',"ID":'' @ quote k @ '',"Size":'' @ quote sz @ '',"Value":'' @ quote v @ ''}'')\<close>
  by (simp add: quote_keys)

lemma plain_created:
  \<open>JSON_stringify (JObj
        [(''ID'', JStr k), (''Flavor'', JStr f), (''Size'', JStr sz),
         (''Client'', JStr c), (''Cone'', JStr co), (''Value'', JStr v)])
   = Some (''{"ID":'' @ quote k @ '',"Flavor":'' @ quote f @ '',"Size":'' @ quote sz
           @ '',"Client":'' @ quote c @ '',"Cone":'' @ quote co @ '',"Value":'' @ quote v @ ''}'')\<close>
  by (simp add: quote_keys own_properties_def is_array_index_def is_digit_def)

lemma canonical_obj_nonempty:
  "stringify (sortKeysRecursive (JObj kvs)) = Some t \<Longrightarrow> t \<noteq> []"
  by auto

lemma Buffer_from_canonical:
  "Buffer_from (stringify (sortKeysRecursive (JObj kvs)))
     = Inr (the (stringify (sortKeysRecursive (JObj kvs))))"
  by (simp add: Buffer_from_def)

lemma canonical_Some:
  "Some (the (stringify (sortKeysRecursive (JObj kvs)))) = stringify (sortKeysRecursive (JObj kvs))"
  by simp

lemma sort_key_fst_unique:
  assumes "distinct (map fst xs)" "distinct (map fst ys)" "set xs = set ys"
  shows "sort_key fst xs = sort_key fst ys"
proof -
  have "distinct xs" "distinct ys" using assms(1,2) by (simp_all add: distinct_map)
  then have "mset xs = mset ys" using assms(3) by (simp add: set_eq_iff_mset_eq_distinct)
  then have "mset xs = mset (sort_key fst ys)" by simp
  moreover have "inj_on fst (set xs)" using assms(1) by (simp add: distinct_map)
  moreover have "sorted (map fst (sort_key fst ys))" by simp
  ultimately show ?thesis by (rule sort_key_inj_key_eq)
qed

lemma same_value_sorted: "same_value a b \<Longrightarrow> sortKeysRecursive a = sortKeysRecursive b"
proof (induction a b rule: same_value.induct)
  case (1 xs ys)
  let ?g = "\<lambda>kv. (fst kv, sortKeysRecursive (snd kv))"
  from "1.prems" have dx: "distinct (map fst xs)" and dy: "distinct (map fst ys)"
    and keys: "fst ` set xs = fst ` set ys"
    and vals: "\<forall>kv \<in> set xs. same_value (snd kv) (obj_get ys (fst kv))"
    by simp_all
  have step: "sortKeysRecursive (snd kv) = sortKeysRecursive (obj_get ys (fst kv))"
    if "kv \<in> set xs" for kv
    using that vals "1.IH" by blast
  have get: "obj_get ys k = w" if "(k, w) \<in> set ys" for k w
    using that dy by (simp add: obj_get_def)
  have "?g ` set xs = ?g ` set ys"
  proof (intro equalityI subsetI)
    fix p assume "p \<in> ?g ` set xs"
    then obtain kv where kv: "kv \<in> set xs" "p = ?g kv" by blast
    from kv(1) have "fst kv \<in> fst ` set xs" by (rule imageI)
    then have "fst kv \<in> fst ` set ys" using keys by simp
    then obtain w where w: "(fst kv, w) \<in> set ys" by force
    have "p = ?g (fst kv, w)" using kv(2) step [OF kv(1)] get [OF w] by simp
    then show "p \<in> ?g ` set ys" using w by (simp only: image_eqI)
  next
    fix p assume "p \<in> ?g ` set ys"
    then obtain k w where w: "(k, w) \<in> set ys" "p = ?g (k, w)" by force
    from w(1) have "k \<in> fst ` set ys" by force
    then have "k \<in> fst ` set xs" using keys by simp
    then obtain v where v: "(k, v) \<in> set xs" by force
    have "?g (k, v) = ?g (k, w)" using step [OF v] get [OF w(1)] by simp
    then show "p \<in> ?g ` set xs" using v w(2) by (metis (no_types, lifting) image_eqI)
  qed
  then have "set (map ?g xs) = set (map ?g ys)" by simp
  moreover have "distinct (map fst (map ?g xs))" "distinct (map fst (map ?g ys))"
    using dx dy by (simp_all add: comp_def)
  ultimately have "sort_key fst (map ?g xs) = sort_key fst (map ?g ys)"
    by (intro sort_key_fst_unique)
  then show ?case by simp
next
  case (2 xs ys)
  from "2.prems" have "list_all2 same_value xs ys" by simp
  then have "list_all2 (\<lambda>x y. sortKeysRecursive x = sortKeysRecursive y) xs ys"
    using "2.IH" by (rule list.rel_mono_strong) blast
  then have "map sortKeysRecursive xs = map sortKeysRecursive ys"
    by (induction rule: list_all2_induct) simp_all
  then show ?case by simp
qed simp_all

lemma distinct_sort_key_fst: "distinct (map fst (sort_key fst xs)) = distinct (map fst xs)"
  by (induction xs) (simp_all add: distinct_insort_key)

lemma digit_char_table:
  "digit_char 0 = CHR ''0''" "digit_char 1 = CHR ''1''" "digit_char 2 = CHR ''2''"
  "digit_char 3 = CHR ''3''" "digit_char 4 = CHR ''4''" "digit_char 5 = CHR ''5''"
  "digit_char 6 = CHR ''6''" "digit_char 7 = CHR ''7''" "digit_char 8 = CHR ''8''"
  "digit_char 9 = CHR ''9''" "digit_char (Suc 0) = CHR ''1''"
  by code_simp+

lemma seed_numbers:
  "number_to_string 10000 = ''10000''" "number_to_string 6000 = ''6000''"
  "number_to_string 15000 = ''15000''"
  by (simp_all add: number_to_string_def digits.simps digit_char_table)

section \<open>\<^verbatim>\<open>JSON.parse\<close> inverts the encodings\<close>

lemma hex_val_hex_char: "d < 16 \<Longrightarrow> hex_val (hex_char d) = Some d"
  by (auto simp: hex_val_def hex_char_def less_eq_char_def)

lemma hex_val_zero: "hex_val CHR ''0'' = Some 0"
  by (simp add: hex_val_def less_eq_char_def)

lemma hex4_control:
  "(of_char c :: nat) < 32 \<Longrightarrow>
   hex4 CHR ''0'' CHR ''0'' (hex_char ((of_char c :: nat) div 16)) (hex_char ((of_char c :: nat) mod 16))
     = Some (of_char c)"
  by (simp add: hex4_def hex_val_zero hex_val_hex_char)

lemma parse_escape_char:
  "parse_string_body (escape_char c @ r) = cons_char c (parse_string_body r)"
proof -
  consider (short) "c \<in> {CHR 0x22, CHR 0x5C, CHR 0x08, CHR 0x0C, CHR 0x0A, CHR 0x0D, CHR 0x09}"
    | (ctl) "c \<notin> {CHR 0x22, CHR 0x5C, CHR 0x08, CHR 0x0C, CHR 0x0A, CHR 0x0D, CHR 0x09}"
        "(of_char c :: nat) < 32"
    | (other) "c \<notin> {CHR 0x22, CHR 0x5C, CHR 0x08, CHR 0x0C, CHR 0x0A, CHR 0x0D, CHR 0x09}"
        "\<not> (of_char c :: nat) < 32"
    by blast
  then show ?thesis
  proof cases
    case short
    then show ?thesis by (auto simp: escape_char_def unescape_def)
  next
    case ctl
    then show ?thesis by (simp add: escape_char_def hex4_control)
  next
    case other
    then show ?thesis by (simp add: escape_char_def)
  qed
qed

lemma parse_escaped:
  "parse_string_body (concat (map escape_char s) @ CHR 0x22 # r) = Some (s, r)"
  by (induction s) (simp_all add: parse_escape_char cons_char_def)

lemma digit_char_is_digit: "d < 10 \<Longrightarrow> is_digit (digit_char d)"
  by (simp add: is_digit_def digit_char_def less_eq_char_def)

lemma digit_val_digit_char: "d < 10 \<Longrightarrow> digit_val (digit_char d) = d"
  by (simp add: digit_val_def digit_char_def)

lemma digit_char_zero: "d < 10 \<Longrightarrow> digit_char d = CHR ''0'' \<longleftrightarrow> d = 0"
proof -
  assume "d < 10"
  then have "(of_char (digit_char d) :: nat) = 48 + d" by (simp add: digit_char_def)
  moreover have "(of_char CHR ''0'' :: nat) = 48" by simp
  ultimately have "(of_char (digit_char d) :: nat) = of_char CHR ''0'' \<longleftrightarrow> d = 0"
    by simp
  then show ?thesis by (simp only: of_char_eq_iff)
qed

lemma digits_all: "list_all is_digit (digits n)"
proof (induction n rule: digits.induct)
  case (1 n)
  show ?case
  proof (cases "n < 10")
    case True
    then show ?thesis by (subst digits.simps) (simp add: digit_char_is_digit)
  next
    case False
    with 1 show ?thesis by (subst digits.simps) (simp add: digit_char_is_digit)
  qed
qed

lemma nat_of_digits_append:
  "nat_of_digits (ds @ [c]) = 10 * nat_of_digits ds + digit_val c"
  by (simp add: nat_of_digits_def)

lemma nat_of_digits_digits: "nat_of_digits (digits n) = n"
proof (induction n rule: digits.induct)
  case (1 n)
  show ?case
  proof (cases "n < 10")
    case True
    then show ?thesis
      by (subst digits.simps) (simp add: nat_of_digits_def digit_val_digit_char)
  next
    case False
    with 1 show ?thesis
      by (subst digits.simps) (simp add: nat_of_digits_append digit_val_digit_char)
  qed
qed

lemma digits_hd: "\<exists>c t. digits n = c # t \<and> is_digit c \<and> (c = CHR ''0'' \<longrightarrow> n = 0 \<and> t = [])"
proof (induction n rule: digits.induct)
  case (1 n)
  show ?case
  proof (cases "n < 10")
    case True
    then show ?thesis
      by (subst digits.simps) (simp add: digit_char_is_digit digit_char_zero)
  next
    case False
    then have "n div 10 \<noteq> 0" by simp
    with 1 False obtain c t where "digits (n div 10) = c # t" "is_digit c" "c \<noteq> CHR ''0''"
      by blast
    with False show ?thesis by (subst digits.simps) simp
  qed
qed

lemma delimited_not_digit: "delimited r \<Longrightarrow> takeWhile is_digit r = [] \<and> dropWhile is_digit r = r"
  by (cases r) (auto simp: delimited_def is_digit_def less_eq_char_def)

lemma nat_of_digits_app:
  "nat_of_digits (a @ b) = nat_of_digits a * 10 ^ length b + nat_of_digits b"
proof (induction b rule: rev_induct)
  case Nil
  then show ?case by (simp add: nat_of_digits_def)
next
  case (snoc c b)
  have "nat_of_digits (a @ b @ [c]) = 10 * nat_of_digits (a @ b) + digit_val c"
    using nat_of_digits_append [of "a @ b" c] by simp
  also have "\<dots> = 10 * (nat_of_digits a * 10 ^ length b + nat_of_digits b) + digit_val c"
    by (simp only: snoc)
  also have "\<dots> = nat_of_digits a * 10 ^ length (b @ [c]) + nat_of_digits (b @ [c])"
    by (simp add: nat_of_digits_append algebra_simps)
  finally show ?case .
qed

lemma nat_of_digits_zeros: "nat_of_digits (replicate z CHR ''0'' @ ds) = nat_of_digits ds"
proof -
  have "nat_of_digits (replicate z CHR ''0'') = 0"
  proof (induction z)
    case 0
    then show ?case by (simp add: nat_of_digits_def)
  next
    case (Suc z)
    have "replicate (Suc z) CHR ''0'' = replicate z CHR ''0'' @ [CHR ''0'']"
      by (simp add: replicate_append_same)
    then show ?case using Suc by (simp only: nat_of_digits_append) (simp add: digit_val_def)
  qed
  then show ?thesis by (simp add: nat_of_digits_app)
qed

lemma reduce_keep: "m mod 10 \<noteq> 0 \<Longrightarrow> 0 < e \<Longrightarrow> reduce m e = (m, e)"
  by (cases e) simp_all

lemma reduce_result: "reduce i f = (m, Suc e) \<Longrightarrow> m mod 10 \<noteq> 0"
  by (induction i f rule: reduce.induct) (auto split: if_splits)

lemma reduce_positive: "reduce i f = (m, e) \<Longrightarrow> 0 < i \<Longrightarrow> 0 < m"
proof (induction i f rule: reduce.induct)
  case (1 m)
  then show ?case by simp
next
  case (2 i f)
  show ?case
  proof (cases "i mod 10 = 0")
    case True
    with "2.prems"(2) have "0 < i div 10" by (simp add: div_greater_zero_iff mod_eq_0_iff_dvd dvd_imp_le)
    with 2 True show ?thesis by simp
  next
    case False
    with 2 show ?thesis by simp
  qed
qed

lemma number_value_int:
  "int n < 2 ^ 53 \<Longrightarrow> number_value neg n 0 = Some (JNum (if neg then - int n else int n))"
  by (simp add: number_value_def)

lemma decimal_places_bound:
  assumes "\<bar>m\<bar> < 10 ^ 15" and "(10::int) ^ e \<le> \<bar>m\<bar> * 10 ^ 6"
  shows "e < 21"
proof -
  from assms(1) have "\<bar>m\<bar> * 10 ^ 6 < (10::int) ^ 15 * 10 ^ 6" by simp
  with assms(2) have "(10::int) ^ e < 10 ^ 21" by simp
  then show ?thesis by (simp only: power_strict_increasing_iff) 
qed

lemma number_value_dec:
  assumes "plain (JDec m e)"
  shows "number_value (m < 0) (nat \<bar>m\<bar>) (- int e) = Some (JDec m e)"
proof -
  from assms have nd: "\<not> 10 dvd m" and e: "0 < e" and b: "\<bar>m\<bar> < 10 ^ 15"
    and l: "(10::int) ^ e \<le> \<bar>m\<bar> * 10 ^ 6"
    by simp_all
  from nd have m0: "m \<noteq> 0" by auto
  from nd have "\<not> 10 dvd \<bar>m\<bar>" by simp
  then have "\<not> 10 dvd nat \<bar>m\<bar>" by (metis abs_ge_zero int_dvd_int_iff nat_0_le of_nat_numeral)
  then have "nat \<bar>m\<bar> mod 10 \<noteq> 0" by (simp add: mod_eq_0_iff_dvd)
  then have r: "reduce (nat \<bar>m\<bar>) e = (nat \<bar>m\<bar>, e)" using e by (rule reduce_keep)
  have e21: "e < 21" using b l by (rule decimal_places_bound)
  have s: "(if m < 0 then - int (nat \<bar>m\<bar>) else int (nat \<bar>m\<bar>)) = m" by simp
  show ?thesis
    using m0 e r b l e21 unfolding number_value_def by (simp add: s del: of_nat_nat)
qed

lemma number_value_plain: "number_value neg i x = Some v \<Longrightarrow> plain v"
proof (cases "i = 0")
  case True
  then show "number_value neg i x = Some v \<Longrightarrow> ?thesis" by (auto simp: number_value_def)
next
  case i: False
  assume a: "number_value neg i x = Some v"
  show ?thesis
  proof (cases "0 \<le> x")
    case True
    with a i show ?thesis by (auto simp: number_value_def split: if_splits)
  next
    case False
    obtain m e where r: "reduce i (nat (- x)) = (m, e)" by (cases "reduce i (nat (- x))")
    show ?thesis
    proof (cases e)
      case 0
      with a i False r show ?thesis by (auto simp: number_value_def split: if_splits)
    next
      case (Suc e')
      with r have "m mod 10 \<noteq> 0" by (auto dest: reduce_result)
      then have "\<not> 10 dvd m" by (simp add: mod_eq_0_iff_dvd)
      then have "\<not> 10 dvd int m" by (metis int_dvd_int_iff of_nat_numeral)
      with a i False r Suc show ?thesis
        by (auto simp: number_value_def split: if_splits)
    qed
  qed
qed


lemma with_rest_Some: "with_rest (Some v) r = Some (v, r)"
  by (simp add: with_rest_def)

lemma parse_exponent_delimited:
  "delimited r \<Longrightarrow> parse_exponent neg i f r = with_rest (number_value neg i (- int f)) r"
  by (cases r) (auto simp: delimited_def parse_exponent_def)

lemma parse_fraction_delimited:
  "delimited r \<Longrightarrow> parse_fraction neg ip r = with_rest (number_value neg (nat_of_digits ip) 0) r"
  using parse_exponent_delimited [of r neg "nat_of_digits ip" 0]
  by (cases r) (auto simp: delimited_def parse_fraction_def)

lemma digits_span:
  assumes "\<forall>x \<in> set ds. is_digit x" and "r = [] \<or> \<not> is_digit (hd r)"
  shows "takeWhile is_digit (ds @ r) = ds" "dropWhile is_digit (ds @ r) = r"
proof -
  from assms(2) have "takeWhile is_digit r = []" "dropWhile is_digit r = r"
    by (cases r; simp)+
  with assms(1) show "takeWhile is_digit (ds @ r) = ds" "dropWhile is_digit (ds @ r) = r"
    by (simp_all add: takeWhile_append2 dropWhile_append2)
qed

lemma delimited_no_digit: "delimited r \<Longrightarrow> r = [] \<or> \<not> is_digit (hd r)"
  by (cases r) (auto simp: delimited_def is_digit_def less_eq_char_def)

lemma parse_unsigned_digits:
  assumes "delimited r" and "int n < 2 ^ 53"
  shows "parse_unsigned neg (digits n @ r) = Some (JNum (if neg then - int n else int n), r)"
proof -
  obtain c t where ct: "digits n = c # t" "is_digit c" "c = CHR ''0'' \<longrightarrow> n = 0 \<and> t = []"
    using digits_hd by blast
  have v: "with_rest (number_value neg n 0) r = Some (JNum (if neg then - int n else int n), r)"
    using number_value_int [OF assms(2)] by (simp add: with_rest_def)
  show ?thesis
  proof (cases "c = CHR ''0''")
    case True
    with ct have "digits n = ''0''" "n = 0" by simp_all
    moreover have "nat_of_digits ''0'' = 0" by (simp add: nat_of_digits_def digit_val_def)
    ultimately show ?thesis
      using parse_fraction_delimited [OF assms(1), of neg "''0''"] v
      by (simp add: parse_unsigned_def)
  next
    case False
    have all: "\<forall>x \<in> set (digits n). is_digit x"
      using digits_all [of n] by (simp add: list_all_iff)
    have tw: "takeWhile is_digit (digits n @ r) = digits n"
      and dw: "dropWhile is_digit (digits n @ r) = r"
      using digits_span [OF all delimited_no_digit [OF assms(1)]] by simp_all
    have "parse_unsigned neg (c # t @ r)
            = parse_fraction neg (takeWhile is_digit (c # t @ r)) (dropWhile is_digit (c # t @ r))"
      using False ct(2) by (simp add: parse_unsigned_def del: takeWhile.simps dropWhile.simps)
    moreover have "takeWhile is_digit (c # t @ r) = digits n" "dropWhile is_digit (c # t @ r) = r"
      using tw dw ct(1) by simp_all
    ultimately have "parse_unsigned neg (c # t @ r) = parse_fraction neg (digits n) r"
      by (simp only:)
    then have "parse_unsigned neg (digits n @ r) = parse_fraction neg (digits n) r"
      by (simp add: ct(1))
    also have "\<dots> = with_rest (number_value neg n 0) r"
      using parse_fraction_delimited [OF assms(1), of neg "digits n"]
      by (simp only: nat_of_digits_digits)
    finally show ?thesis by (simp only: v)
  qed
qed

lemma parse_unsigned_decimal:
  assumes "0 < n" and "0 < e" and "delimited r"
  shows "parse_unsigned neg (decimal_body n e @ r) = with_rest (number_value neg n (- int e)) r"
proof -
  define ds where "ds = digits n"
  define k where "k = length ds"
  obtain c t where ct: "ds = c # t" "is_digit c" "c \<noteq> CHR ''0''"
    using digits_hd [of n] assms(1) unfolding ds_def by auto
  have all: "\<forall>x \<in> set ds. is_digit x"
    using digits_all [of n] by (simp add: list_all_iff ds_def)
  have val: "nat_of_digits ds = n" by (simp add: ds_def nat_of_digits_digits)
  have nd: "r = [] \<or> \<not> is_digit (hd r)" using assms(3) by (rule delimited_no_digit)
  have dot: "\<not> is_digit CHR ''.''" by (simp add: is_digit_def less_eq_char_def)
  have frac: "parse_fraction neg ip (CHR ''.'' # fp @ r) = with_rest (number_value neg n (- int e)) r"
    if "nat_of_digits (ip @ fp) = n" "length fp = e" "\<forall>x \<in> set fp. is_digit x" for ip fp
  proof -
    from that(2) assms(2) obtain d fp' where fp: "fp = d # fp'" by (cases fp) auto
    with that(3) have d: "is_digit d" and fp': "\<forall>x \<in> set fp'. is_digit x" by simp_all
    have sp: "takeWhile is_digit (fp' @ r) = fp'" "dropWhile is_digit (fp' @ r) = r"
      using digits_span [OF fp' nd] by simp_all
    have "parse_fraction neg ip (CHR ''.'' # d # fp' @ r)
            = parse_exponent neg (nat_of_digits (ip @ d # fp')) (Suc (length fp')) r"
      using d sp by (simp add: parse_fraction_def)
    with fp that(1,2) parse_exponent_delimited [OF assms(3), of neg n e] show ?thesis by simp
  qed
  show ?thesis
  proof (cases "e < k")
    case True
    let ?ip = "take (k - e) ds" and ?fp = "drop (k - e) ds"
    from True have ke: "0 < k - e" by simp
    then obtain t' where ip: "?ip = c # t'" using ct(1) by (cases "k - e") auto
    have ipd: "\<forall>x \<in> set ?ip. is_digit x" using all by (auto dest: in_set_takeD)
    have fpd: "\<forall>x \<in> set ?fp. is_digit x" using all by (auto dest: in_set_dropD)
    have sp: "takeWhile is_digit (?ip @ CHR ''.'' # ?fp @ r) = ?ip"
        "dropWhile is_digit (?ip @ CHR ''.'' # ?fp @ r) = CHR ''.'' # ?fp @ r"
      using digits_span [OF ipd, of "CHR ''.'' # ?fp @ r"] dot by simp_all
    have "parse_unsigned neg (c # t' @ CHR ''.'' # ?fp @ r)
            = parse_fraction neg (takeWhile is_digit (c # t' @ CHR ''.'' # ?fp @ r))
                (dropWhile is_digit (c # t' @ CHR ''.'' # ?fp @ r))"
      using ct(2,3) by (simp add: parse_unsigned_def del: takeWhile.simps dropWhile.simps)
    then have "parse_unsigned neg (?ip @ CHR ''.'' # ?fp @ r)
            = parse_fraction neg ?ip (CHR ''.'' # ?fp @ r)"
      using sp ip by simp
    moreover have "parse_fraction neg ?ip (CHR ''.'' # ?fp @ r)
                     = with_rest (number_value neg n (- int e)) r"
      using True val fpd by (intro frac) (simp_all add: k_def)
    ultimately show ?thesis
      using True by (simp add: decimal_body_def ds_def [symmetric] k_def [symmetric])
  next
    case False
    let ?fp = "replicate (e - k) CHR ''0'' @ ds"
    have z: "is_digit CHR ''0''" by (simp add: is_digit_def)
    have "nat_of_digits (''0'' @ ?fp) = n"
      using nat_of_digits_zeros [of "Suc (e - k)" ds] val by simp
    moreover have "length ?fp = e" using False by (simp add: k_def)
    moreover have "\<forall>x \<in> set ?fp. is_digit x" using all z by auto
    ultimately have "parse_fraction neg ''0'' (CHR ''.'' # ?fp @ r)
                       = with_rest (number_value neg n (- int e)) r"
      by (rule frac)
    then show ?thesis using False
      by (simp add: decimal_body_def ds_def [symmetric] k_def [symmetric] parse_unsigned_def)
  qed
qed

lemma parse_number_roundtrip:
  assumes "delimited r" and "\<bar>i\<bar> < 2 ^ 53"
  shows "parse_number (number_to_string i @ r) = Some (JNum i, r)"
proof (cases "i < 0")
  case True
  with assms(2) have "int (nat (- i)) < 2 ^ 53" by simp
  with True show ?thesis
    using parse_unsigned_digits [OF assms(1), of "nat (- i)" True]
    by (simp add: parse_number_def number_to_string_def)
next
  case False
  obtain c t where ct: "digits (nat i) = c # t" "is_digit c"
    using digits_hd by blast
  then have "c \<noteq> CHR ''-''" by (auto simp: is_digit_def less_eq_char_def)
  moreover from False assms(2) have "int (nat i) < 2 ^ 53" by simp
  ultimately show ?thesis
    using False ct(1) parse_unsigned_digits [OF assms(1), of "nat i" False]
    by (simp add: parse_number_def number_to_string_def)
qed

lemma decimal_body_hd: "\<exists>c t. decimal_body n e = c # t \<and> is_digit c"
proof -
  obtain c t where ct: "digits n = c # t" "is_digit c"
    using digits_hd by blast
  have z: "is_digit CHR ''0''" by (simp add: is_digit_def)
  show ?thesis
  proof (cases "e < length (digits n)")
    case True
    then obtain j where "length (digits n) - e = Suc j"
      by (cases "length (digits n) - e") auto
    with True ct show ?thesis by (auto simp: decimal_body_def Let_def)
  next
    case False
    with z show ?thesis by (auto simp: decimal_body_def Let_def)
  qed
qed

lemma decimal_to_string_hd:
  "\<exists>c t. decimal_to_string m e = c # t \<and> (is_digit c \<or> c = CHR ''-'')"
  using decimal_body_hd [of "nat m" e] by (auto simp: decimal_to_string_def)

lemma parse_number_decimal:
  assumes "plain (JDec m e)" and "delimited r"
  shows "parse_number (decimal_to_string m e @ r) = Some (JDec m e, r)"
proof -
  from assms(1) have e: "0 < e" and m0: "m \<noteq> 0" by auto
  have v: "with_rest (number_value (m < 0) (nat \<bar>m\<bar>) (- int e)) r = Some (JDec m e, r)"
    using number_value_dec [OF assms(1)] by (simp add: with_rest_def)
  show ?thesis
  proof (cases "m < 0")
    case True
    then have "0 < nat (- m)" by simp
    from parse_unsigned_decimal [OF this e assms(2), of True] True v show ?thesis
      by (simp add: parse_number_def decimal_to_string_def)
  next
    case False
    with m0 have "0 < nat m" by simp
    from parse_unsigned_decimal [OF this e assms(2), of False] False v
    have u: "parse_unsigned False (decimal_body (nat m) e @ r) = Some (JDec m e, r)" by simp
    obtain c t where ct: "decimal_body (nat m) e = c # t" "is_digit c"
      using decimal_body_hd by blast
    then have "c \<noteq> CHR ''-''" by (auto simp: is_digit_def less_eq_char_def)
    with False ct(1) u show ?thesis
      by (simp add: parse_number_def decimal_to_string_def)
  qed
qed

lemma number_to_string_hd:
  "\<exists>c t. number_to_string i = c # t \<and> (is_digit c \<or> c = CHR ''-'')"
  using digits_hd [of "nat i"] by (auto simp: number_to_string_def)

lemma parse_literal_number:
  assumes "delimited r" and "\<bar>i\<bar> < 2 ^ 53"
  shows "parse_literal (number_to_string i @ r) = Some (JNum i, r)"
proof -
  obtain c t where ct: "number_to_string i = c # t" "is_digit c \<or> c = CHR ''-''"
    using number_to_string_hd by blast
  then have "c \<noteq> CHR ''t''" "c \<noteq> CHR ''f''" "c \<noteq> CHR ''n''"
    by (auto simp: is_digit_def less_eq_char_def)
  then have "parse_literal (c # t @ r) = parse_number (c # t @ r)"
    by (cases t) (auto simp: parse_literal_def)
  then show ?thesis using ct(1) parse_number_roundtrip [OF assms] by simp
qed

lemma parse_literal_decimal:
  assumes "plain (JDec m e)" and "delimited r"
  shows "parse_literal (decimal_to_string m e @ r) = Some (JDec m e, r)"
proof -
  obtain c t where ct: "decimal_to_string m e = c # t" "is_digit c \<or> c = CHR ''-''"
    using decimal_to_string_hd by blast
  then have "c \<noteq> CHR ''t''" "c \<noteq> CHR ''f''" "c \<noteq> CHR ''n''"
    by (auto simp: is_digit_def less_eq_char_def)
  then have "parse_literal (c # t @ r) = parse_number (c # t @ r)"
    by (cases t) (auto simp: parse_literal_def)
  then show ?thesis using ct(1) parse_number_decimal [OF assms] by simp
qed

lemma skip_ws_keep: "\<not> is_ws c \<Longrightarrow> skip_ws (c # r) = c # r"
  by (simp add: skip_ws_def)

lemma print_start:
  "\<exists>c t. print j = c # t \<and> \<not> is_ws c \<and> c \<noteq> CHR '']'' \<and> c \<noteq> CHR ''}''"
proof (cases j)
  case (JNum i)
  obtain c t where "number_to_string i = c # t" "is_digit c \<or> c = CHR ''-''"
    using number_to_string_hd by blast
  then show ?thesis using JNum by (auto simp: is_ws_def is_digit_def less_eq_char_def)
next
  case (JDec m e)
  obtain c t where "decimal_to_string m e = c # t" "is_digit c \<or> c = CHR ''-''"
    using decimal_to_string_hd by blast
  then show ?thesis using JDec by (auto simp: is_ws_def is_digit_def less_eq_char_def)
qed (auto simp: is_ws_def quote_def)

lemma obj_set_new: "k \<notin> fst ` set acc \<Longrightarrow> obj_set acc k v = acc @ [(k, v)]"
  by (induction acc) auto

lemma parse_elements_print:
  assumes "\<And>x n r. x \<in> set xs \<Longrightarrow> delimited r \<Longrightarrow> length (print x) \<le> n
             \<Longrightarrow> parse_value n (print x @ r) = Some (x, r)"
    and "xs \<noteq> []" and "length (join_comma (map print xs)) < n"
  shows "parse_elements n acc (join_comma (map print xs) @ CHR '']'' # r) = Some (JArr (acc @ xs), r)"
  using assms
proof (induction xs arbitrary: acc n rule: induct_list012)
  case 1
  then show ?case by simp
next
  case (2 x)
  from "2.prems"(3) obtain m where n: "n = Suc m" "length (print x) \<le> m"
    by (cases n) auto
  have "parse_value m (print x @ CHR '']'' # r) = Some (x, CHR '']'' # r)"
    using n by (intro "2.prems"(1)) (simp_all add: delimited_def)
  then show ?case using n by (simp add: skip_ws_keep is_ws_def)
next
  case (3 x y zs)
  let ?rest = "join_comma (map print (y # zs)) @ CHR '']'' # r"
  from "3.prems"(3) obtain m where n: "n = Suc m" "length (print x) \<le> m"
      "length (join_comma (map print (y # zs))) < m"
    by (cases n) auto
  have "parse_value m (print x @ CHR '','' # ?rest) = Some (x, CHR '','' # ?rest)"
    using n by (intro "3.prems"(1)) (simp_all add: delimited_def)
  moreover have "parse_elements m (acc @ [x]) ?rest = Some (JArr ((acc @ [x]) @ y # zs), r)"
    using n(3) "3.prems"(1) by (intro "3.IH"(2)) simp_all
  ultimately show ?case using n by (simp add: skip_ws_keep is_ws_def)
qed

lemma quote_Cons: "quote k = CHR 0x22 # concat (map escape_char k) @ [CHR 0x22]"
  by (simp add: quote_def)

lemma parse_member_key:
  "parse_string_body (concat (map escape_char k) @ CHR 0x22 # CHR '':'' # t) = Some (k, CHR '':'' # t)"
  by (rule parse_escaped)

lemma join_comma_hd: "\<exists>u. join_comma ((c # t) # ys) = c # u"
  by (cases ys) simp_all

lemma parse_members_print:
  assumes "\<And>kv n r. kv \<in> set kvs \<Longrightarrow> delimited r \<Longrightarrow> length (print (snd kv)) \<le> n
             \<Longrightarrow> parse_value n (print (snd kv) @ r) = Some (snd kv, r)"
    and "kvs \<noteq> []" and "distinct (map fst (acc @ kvs))"
    and "length (join_comma (map (\<lambda>kv. quote (fst kv) @ '':'' @ print (snd kv)) kvs)) < n"
  shows "parse_members n acc
           (join_comma (map (\<lambda>kv. quote (fst kv) @ '':'' @ print (snd kv)) kvs) @ CHR ''}'' # r)
         = Some (JObj (acc @ kvs), r)"
  using assms
proof (induction kvs arbitrary: acc n rule: induct_list012)
  case 1
  then show ?case by simp
next
  case (2 kv)
  obtain k v where kv: "kv = (k, v)" by (cases kv)
  from "2.prems"(4) obtain m where n: "n = Suc m" "length (print v) \<le> m"
    by (cases n) (auto simp: kv)
  have new: "k \<notin> fst ` set acc" using "2.prems"(3) by (auto simp: kv)
  have "parse_value m (print v @ CHR ''}'' # r) = Some (v, CHR ''}'' # r)"
    using n "2.prems"(1) [of kv "CHR ''}'' # r" m] by (simp add: delimited_def kv)
  then show ?case
    using n by (simp add: kv quote_Cons parse_member_key skip_ws_keep is_ws_def obj_set_new [OF new])
next
  case (3 kv y zs)
  obtain k v where kv: "kv = (k, v)" by (cases kv)
  let ?rest = "join_comma (map (\<lambda>kv. quote (fst kv) @ '':'' @ print (snd kv)) (y # zs)) @ CHR ''}'' # r"
  from "3.prems"(4) obtain m where n: "n = Suc m" "length (print v) \<le> m"
      "length (join_comma (map (\<lambda>kv. quote (fst kv) @ '':'' @ print (snd kv)) (y # zs))) < m"
    by (cases n) (auto simp: kv)
  have new: "k \<notin> fst ` set acc" using "3.prems"(3) by (auto simp: kv)
  have "parse_value m (print v @ CHR '','' # ?rest) = Some (v, CHR '','' # ?rest)"
    using n "3.prems"(1) [of kv "CHR '','' # ?rest" m] by (simp add: delimited_def kv)
  moreover have "parse_members m (acc @ [kv]) ?rest = Some (JObj ((acc @ [kv]) @ y # zs), r)"
    using n(3) "3.prems"(1,3) by (intro "3.IH"(2)) simp_all
  moreover have "skip_ws ?rest = ?rest"
  proof -
    obtain u where "join_comma (map (\<lambda>kv. quote (fst kv) @ '':'' @ print (snd kv)) (y # zs))
                      = CHR 0x22 # u"
      using join_comma_hd [of "CHR 0x22"] by (auto simp: quote_Cons)
    then show ?thesis by (simp add: skip_ws_keep is_ws_def)
  qed
  ultimately show ?case
    using n by (simp add: kv quote_Cons parse_member_key skip_ws_keep is_ws_def obj_set_new [OF new])
qed

lemma parse_value_print:
  "plain j \<Longrightarrow> delimited r \<Longrightarrow> length (print j) \<le> n \<Longrightarrow> parse_value n (print j @ r) = Some (j, r)"
proof (induction j arbitrary: n r)
  case JUndefined
  then show ?case by simp
next
  case JNull
  then obtain m where "n = Suc m" by (cases n) auto
  then show ?case by (simp add: skip_ws_keep is_ws_def parse_literal_def)
next
  case (JBool b)
  then obtain m where "n = Suc m" by (cases n; cases b) auto
  then show ?case by (cases b) (simp_all add: skip_ws_keep is_ws_def parse_literal_def)
next
  case (JNum i)
  obtain c t where ct: "number_to_string i = c # t" "is_digit c \<or> c = CHR ''-''"
    using number_to_string_hd by blast
  with JNum.prems obtain m where n: "n = Suc m" by (cases n) auto
  from ct(2) have c: "\<not> is_ws c" "c \<noteq> CHR ''{''" "c \<noteq> CHR ''[''" "c \<noteq> CHR 0x22"
    by (auto simp: is_ws_def is_digit_def less_eq_char_def)
  have "parse_literal (c # t @ r) = Some (JNum i, r)"
    using parse_literal_number [OF JNum.prems(2), of i] ct(1) JNum.prems(1) by simp
  then show ?case using n ct(1) c by (simp add: skip_ws_keep)
next
  case (JDec m e)
  obtain c t where ct: "decimal_to_string m e = c # t" "is_digit c \<or> c = CHR ''-''"
    using decimal_to_string_hd by blast
  with JDec.prems obtain k where n: "n = Suc k" by (cases n) auto
  from ct(2) have c: "\<not> is_ws c" "c \<noteq> CHR ''{''" "c \<noteq> CHR ''[''" "c \<noteq> CHR 0x22"
    by (auto simp: is_ws_def is_digit_def less_eq_char_def)
  have "parse_literal (c # t @ r) = Some (JDec m e, r)"
    using parse_literal_decimal [OF JDec.prems(1,2)] ct(1) by simp
  then show ?case using n ct(1) c by (simp add: skip_ws_keep)
next
  case (JStr s)
  then obtain m where "n = Suc m" by (cases n) (auto simp: quote_def)
  then show ?case by (simp add: quote_Cons skip_ws_keep is_ws_def parse_escaped)
next
  case (JArr xs)
  then obtain m where n: "n = Suc m" "length (join_comma (map print xs)) < m"
    by (cases n) auto
  show ?case
  proof (cases xs)
    case Nil
    then show ?thesis using n by (simp add: skip_ws_keep is_ws_def)
  next
    case (Cons x ys)
    let ?body = "join_comma (map print xs) @ CHR '']'' # r"
    obtain c t where ct: "print x = c # t" "\<not> is_ws c" "c \<noteq> CHR '']''"
      using print_start by blast
    then obtain u where u: "join_comma (map print xs) = c # u"
      using join_comma_hd [of c t "map print ys"] Cons by auto
    have "parse_elements m [] ?body = Some (JArr ([] @ xs), r)"
    proof (intro parse_elements_print)
      fix x n r
      assume "x \<in> set xs" "delimited r" "length (print x) \<le> n"
      then show "parse_value n (print x @ r) = Some (x, r)"
        using JArr.prems(1) JArr.IH [of x r n] by simp
    qed (use n(2) Cons in simp_all)
    then show ?thesis using n(1) u ct(2,3) by (simp add: skip_ws_keep is_ws_def)
  qed
next
  case (JObj kvs)
  let ?mem = "\<lambda>kv. quote (fst kv) @ '':'' @ print (snd kv)"
  from JObj.prems obtain m where n: "n = Suc m" "length (join_comma (map ?mem kvs)) < m"
    by (cases n) auto
  show ?case
  proof (cases kvs)
    case Nil
    then show ?thesis using n by (simp add: skip_ws_keep is_ws_def)
  next
    case (Cons kv ys)
    let ?body = "join_comma (map ?mem kvs) @ CHR ''}'' # r"
    obtain u where u: "join_comma (map ?mem kvs) = CHR 0x22 # u"
      using join_comma_hd [of "CHR 0x22"] Cons by (auto simp: quote_Cons)
    have "parse_members m [] ?body = Some (JObj ([] @ kvs), r)"
    proof (intro parse_members_print)
      fix p n r
      assume p: "p \<in> set kvs" "delimited r" "length (print (snd p)) \<le> n"
      have "snd p \<in> Basic_BNFs.snds p" by (cases p) simp
      moreover have "plain (snd p)" using JObj.prems(1) p(1) by simp
      ultimately show "parse_value n (print (snd p) @ r) = Some (snd p, r)"
        using p by (intro JObj.IH)
    qed (use JObj.prems(1) n(2) Cons in simp_all)
    then show ?thesis using n(1) u by (simp add: skip_ws_keep is_ws_def)
  qed
qed

lemma JSON_parse_print: "plain j \<Longrightarrow> JSON_parse (print j) = Some j"
  using parse_value_print [of j "[]" "2 * length (print j) + 2"]
  by (simp add: JSON_parse_def delimited_def skip_ws_def)

lemma stringify_print:
  "stringify v = (if v = JUndefined then None else Some (print (json_of v)))"
proof (induction v)
  case (JArr xs)
  have "(case stringify x of None \<Rightarrow> ''null'' | Some t \<Rightarrow> t) = print (json_of x)"
    if "x \<in> set xs" for x
    using that JArr.IH by simp
  then have eq: "map (\<lambda>x. case stringify x of None \<Rightarrow> ''null'' | Some t \<Rightarrow> t) xs
          = map print (map json_of xs)"
    by (induction xs) simp_all
  show ?case unfolding stringify.simps json_of.simps print.simps eq by simp
next
  case (JObj kvs)
  have *: "concat (map (\<lambda>kv. case stringify (snd kv) of None \<Rightarrow> []
                                  | Some t \<Rightarrow> [quote (fst kv) @ '':'' @ t]) L)
         = map (\<lambda>kv. quote (fst kv) @ '':'' @ print (snd kv))
             (map (\<lambda>kv. (fst kv, json_of (snd kv))) (filter (\<lambda>kv. snd kv \<noteq> JUndefined) L))"
    if "set L \<subseteq> set kvs" for L
    using that
  proof (induction L)
    case Nil
    then show ?case by simp
  next
    case (Cons p L)
    then have "p \<in> set kvs" by simp
    moreover have "snd p \<in> Basic_BNFs.snds p" by (cases p) simp
    ultimately have "stringify (snd p)
                       = (if snd p = JUndefined then None else Some (print (json_of (snd p))))"
      by (rule JObj.IH)
    with Cons show ?case by simp
  qed
  show ?case using * [of "sort_key fst kvs"] by simp
qed simp_all

lemma plain_json_of: "well_formed v \<Longrightarrow> plain (json_of v)"
proof (induction v)
  case (JObj kvs)
  have "plain (snd (fst p, json_of (snd p)))" if "p \<in> set kvs" for p
  proof -
    have "snd p \<in> Basic_BNFs.snds p" by (cases p) simp
    then show ?thesis using that JObj by simp
  qed
  moreover have "distinct (map fst (filter (\<lambda>kv. snd kv \<noteq> JUndefined) (sort_key fst kvs)))"
    using JObj.prems by (intro distinct_map_filter) (simp add: distinct_sort_key_fst)
  ultimately show ?case by (auto simp: comp_def)
qed simp_all

lemma well_formed_sorted: "well_formed v \<Longrightarrow> well_formed (sortKeysRecursive v)"
proof (induction v)
  case (JObj kvs)
  have "well_formed (sortKeysRecursive (snd p))" if "p \<in> set kvs" for p
  proof -
    have "snd p \<in> Basic_BNFs.snds p" by (cases p) simp
    then show ?thesis using that JObj by simp
  qed
  moreover have "distinct (map fst (map (\<lambda>kv. (fst kv, sortKeysRecursive (snd kv))) kvs))"
    using JObj.prems by (simp add: comp_def)
  ultimately show ?case by (auto simp: distinct_sort_key_fst simp del: map_map)
qed simp_all

lemma plain_well_formed: "plain v \<Longrightarrow> well_formed v"
  by (induction v) auto

lemma canonical_roundtrip:
  assumes "well_formed v" "v \<noteq> JUndefined"
  shows "\<exists>t. stringify (sortKeysRecursive v) = Some t
           \<and> JSON_parse t = Some (json_of (sortKeysRecursive v))"
proof -
  have "sortKeysRecursive v \<noteq> JUndefined" using assms(2) by (cases v) simp_all
  then have "stringify (sortKeysRecursive v) = Some (print (json_of (sortKeysRecursive v)))"
    by (simp add: stringify_print)
  moreover have "plain (json_of (sortKeysRecursive v))"
    using assms(1) by (intro plain_json_of well_formed_sorted)
  ultimately show ?thesis by (simp add: JSON_parse_print)
qed

lemma json_of_sorted: "plain v \<Longrightarrow> json_of (sortKeysRecursive v) = sortKeysRecursive v"
proof (induction v)
  case (JObj kvs)
  let ?h = "\<lambda>kv. (fst kv, sortKeysRecursive (snd kv))"
  let ?L = "sort_key fst (map ?h kvs)"
  have vals: "snd p \<noteq> JUndefined \<and> json_of (snd p) = snd p" if "p \<in> set ?L" for p
  proof -
    from that obtain q where q: "q \<in> set kvs" "p = ?h q" by auto
    have "snd q \<in> Basic_BNFs.snds q" by (cases q) simp
    moreover have "plain (snd q)" using JObj.prems q(1) by simp
    ultimately have "json_of (sortKeysRecursive (snd q)) = sortKeysRecursive (snd q)"
      using q(1) by (intro JObj.IH)
    moreover have "sortKeysRecursive (snd q) \<noteq> JUndefined"
      using \<open>plain (snd q)\<close> by (cases "snd q") simp_all
    ultimately show ?thesis using q(2) by simp
  qed
  have "sort_key fst ?L = ?L" by (simp add: sort_key_id_if_sorted)
  moreover have "filter (\<lambda>kv. snd kv \<noteq> JUndefined) ?L = ?L"
    using vals by (simp add: filter_id_conv)
  moreover have "map (\<lambda>kv. (fst kv, json_of (snd kv))) ?L = ?L"
  proof (rule map_idI)
    fix p assume "p \<in> set ?L"
    then have "json_of (snd p) = snd p" by (rule vals [THEN conjunct2])
    then show "(fst p, json_of (snd p)) = p" by (simp add: prod_eq_iff)
  qed
  ultimately show ?case by (simp del: sort_key_simps)
next
  case (JArr xs)
  then have "map json_of (map sortKeysRecursive xs) = map sortKeysRecursive xs"
    by (induction xs) simp_all
  then show ?case by simp
qed simp_all

lemma set_obj_set: "set (obj_set acc k v) \<subseteq> insert (k, v) (set acc)"
  by (induction acc) (auto split: if_splits)

lemma keys_obj_set:
  "map fst (obj_set acc k v) = (if k \<in> fst ` set acc then map fst acc else map fst acc @ [k])"
  by (induction acc) force+

lemma plain_obj_set: "plain (JObj acc) \<Longrightarrow> plain v \<Longrightarrow> plain (JObj (obj_set acc k v))"
  using set_obj_set [of acc k v] by (auto simp: keys_obj_set)

lemma with_rest_E: "with_rest v r = Some (x, r') \<Longrightarrow> v = Some x \<and> r' = r"
  by (cases v) (simp_all add: with_rest_def)

lemma parse_exponent_E:
  assumes "parse_exponent neg i f s = Some (v, r)"
  shows "skip_exponent s = Some r \<and> plain v"
proof (cases s)
  case Nil
  with assms have "with_rest (number_value neg i (- int f)) [] = Some (v, r)"
    by (simp add: parse_exponent_def)
  then have "number_value neg i (- int f) = Some v" "r = []" by (auto dest: with_rest_E)
  with Nil show ?thesis by (simp add: skip_exponent_def number_value_plain)
next
  case (Cons c t)
  show ?thesis
  proof (cases "c = CHR ''e'' \<or> c = CHR ''E''")
    case False
    with assms Cons have "with_rest (number_value neg i (- int f)) s = Some (v, r)"
      by (auto simp: parse_exponent_def)
    then have "number_value neg i (- int f) = Some v" "r = s" by (auto dest: with_rest_E)
    with False Cons show ?thesis by (auto simp: skip_exponent_def number_value_plain)
  next
    case True
    define u where "u = (case t of [] \<Rightarrow> t | g # r1 \<Rightarrow> if g = CHR ''+'' \<or> g = CHR ''-'' then r1 else t)"
    define y where "y = (\<lambda>r2. int (nat_of_digits (hd u # takeWhile is_digit r2)))"
    from assms Cons True have
      "(case u of
          [] \<Rightarrow> None
        | d # r2 \<Rightarrow>
            if is_digit d then
              with_rest (number_value neg i ((if take 1 t = ''-'' then - y r2 else y r2) - int f))
                (dropWhile is_digit r2)
            else None) = Some (v, r)"
      unfolding u_def y_def by (auto simp: parse_exponent_def Let_def split: list.splits)
    then obtain d r2 x where u: "u = d # r2" "is_digit d"
      and w: "with_rest (number_value neg i x) (dropWhile is_digit r2) = Some (v, r)"
      by (cases u) (auto split: if_splits)
    from w have "number_value neg i x = Some v" "r = dropWhile is_digit r2"
      by (auto dest: with_rest_E)
    moreover have "skip_exponent s = Some (dropWhile is_digit r2)"
      using Cons True u unfolding u_def by (auto simp: skip_exponent_def)
    ultimately show ?thesis by (simp add: number_value_plain)
  qed
qed

lemma parse_fraction_E:
  assumes "parse_fraction neg ip s = Some (v, r)"
  shows "skip_fraction s = Some r \<and> plain v"
proof (cases s)
  case Nil
  with assms parse_exponent_E [of neg "nat_of_digits ip" 0 s v r] show ?thesis
    by (simp add: parse_fraction_def skip_fraction_def skip_exponent_def)
next
  case (Cons c t)
  show ?thesis
  proof (cases "c = CHR ''.''")
    case False
    with assms Cons parse_exponent_E [of neg "nat_of_digits ip" 0 s v r] show ?thesis
      by (simp add: parse_fraction_def skip_fraction_def)
  next
    case True
    with assms Cons obtain d r1 where t: "t = d # r1" "is_digit d"
      and p: "parse_exponent neg (nat_of_digits (ip @ d # takeWhile is_digit r1))
                (Suc (length (takeWhile is_digit r1))) (dropWhile is_digit r1) = Some (v, r)"
      by (cases t) (auto simp: parse_fraction_def split: if_splits)
    from parse_exponent_E [OF p] True Cons t show ?thesis by (simp add: skip_fraction_def)
  qed
qed

lemma parse_unsigned_E:
  assumes "parse_unsigned neg s = Some (v, r)"
  shows "skip_unsigned s = Some r \<and> plain v"
proof (cases s)
  case Nil
  with assms show ?thesis by (simp add: parse_unsigned_def)
next
  case (Cons c t)
  show ?thesis
  proof (cases "c = CHR ''0''")
    case True
    with assms Cons have "parse_fraction neg ''0'' t = Some (v, r)" by (simp add: parse_unsigned_def)
    from parse_fraction_E [OF this] True Cons show ?thesis by (simp add: skip_unsigned_def)
  next
    case False
    with assms Cons have d: "is_digit c"
      and f: "parse_fraction neg (takeWhile is_digit s) (dropWhile is_digit s) = Some (v, r)"
      by (auto simp: parse_unsigned_def split: if_splits)
    from parse_fraction_E [OF f] False d Cons show ?thesis by (simp add: skip_unsigned_def)
  qed
qed

lemma skip_exponent_length: "skip_exponent s = Some r \<Longrightarrow> length r \<le> length s"
proof (cases s)
  case Nil
  then show "skip_exponent s = Some r \<Longrightarrow> ?thesis" by (simp add: skip_exponent_def)
next
  case (Cons c t)
  assume a: "skip_exponent s = Some r"
  show ?thesis
  proof (cases "c = CHR ''e'' \<or> c = CHR ''E''")
    case False
    with a Cons show ?thesis by (auto simp: skip_exponent_def)
  next
    case True
    define u where "u = (case t of [] \<Rightarrow> t | g # r1 \<Rightarrow> if g = CHR ''+'' \<or> g = CHR ''-'' then r1 else t)"
    have lu: "length u \<le> length t" by (cases t) (simp_all add: u_def)
    from a Cons True have "(case u of [] \<Rightarrow> None
        | d # r2 \<Rightarrow> if is_digit d then Some (dropWhile is_digit r2) else None) = Some r"
      unfolding u_def by (auto simp: skip_exponent_def)
    then obtain d r2 where "u = d # r2" "r = dropWhile is_digit r2"
      by (cases u) (auto split: if_splits)
    moreover have "length (dropWhile is_digit r2) \<le> length r2" by (rule length_dropWhile_le)
    ultimately show ?thesis using Cons lu by simp
  qed
qed

lemma skip_fraction_length: "skip_fraction s = Some r \<Longrightarrow> length r \<le> length s"
proof (cases s)
  case Nil
  then show "skip_fraction s = Some r \<Longrightarrow> ?thesis" by (simp add: skip_fraction_def)
next
  case (Cons c t)
  assume a: "skip_fraction s = Some r"
  show ?thesis
  proof (cases "c = CHR ''.''")
    case False
    with a Cons show ?thesis by (auto simp: skip_fraction_def dest: skip_exponent_length)
  next
    case True
    with a Cons obtain d r1 where "t = d # r1" "skip_exponent (dropWhile is_digit r1) = Some r"
      by (auto simp: skip_fraction_def split: list.splits if_splits)
    moreover have "length (dropWhile is_digit r1) \<le> length r1" by (rule length_dropWhile_le)
    ultimately show ?thesis using Cons skip_exponent_length [of "dropWhile is_digit r1" r] by simp
  qed
qed

lemma skip_unsigned_shorter: "skip_unsigned s = Some r \<Longrightarrow> length r < length s"
proof (cases s)
  case Nil
  then show "skip_unsigned s = Some r \<Longrightarrow> ?thesis" by (simp add: skip_unsigned_def)
next
  case (Cons c t)
  assume a: "skip_unsigned s = Some r"
  show ?thesis
  proof (cases "c = CHR ''0''")
    case True
    with a Cons show ?thesis by (auto simp: skip_unsigned_def dest: skip_fraction_length)
  next
    case False
    with a Cons have d: "is_digit c" and f: "skip_fraction (dropWhile is_digit t) = Some r"
      by (auto simp: skip_unsigned_def split: if_splits)
    have "length (dropWhile is_digit t) \<le> length t" by (rule length_dropWhile_le)
    with skip_fraction_length [OF f] Cons show ?thesis by simp
  qed
qed

lemma parse_literal_plain: "parse_literal s = Some (v, r) \<Longrightarrow> plain v"
proof -
  assume a: "parse_literal s = Some (v, r)"
  show ?thesis
  proof (cases "take 4 s = ''true'' \<or> take 5 s = ''false'' \<or> take 4 s = ''null''")
    case True
    with a show ?thesis by (auto simp: parse_literal_def split: if_splits)
  next
    case False
    with a have n: "parse_number s = Some (v, r)" by (simp add: parse_literal_def)
    show ?thesis
    proof (cases s)
      case Nil
      with n show ?thesis by (simp add: parse_number_def)
    next
      case (Cons c t)
      with n parse_unsigned_E [of True t v r] parse_unsigned_E [of False s v r] show ?thesis
        by (auto simp: parse_number_def split: if_splits)
    qed
  qed
qed

text \<open>
  The parser consumes input with every value it returns, so the bound that \<open>JSON_parse\<close>
  sets for the recursion is never reached: from twice the length of the text on, more
  fuel does not change the result, and what the parser returns with any fuel,
  \<open>JSON_parse\<close> returns.
\<close>

lemma cons_char_shorter:
  "cons_char c res = Some (t, r) \<Longrightarrow> \<exists>t'. res = Some (t', r)"
  by (cases res) (auto simp: cons_char_def)

lemma parse_string_body_shorter: "parse_string_body s = Some (t, r) \<Longrightarrow> length r < length s"
proof (induction "length s" arbitrary: s t rule: less_induct)
  case less
  show ?case
  proof (cases s)
    case Nil
    with less.prems show ?thesis by simp
  next
    case (Cons c r0)
    have IH: "length r < length s'" if "parse_string_body s' = Some (t', r)" "length s' < length s"
      for s' t'
      using less.hyps that by blast
    consider (quote) "c = CHR 0x22"
      | (plain) "c \<noteq> CHR 0x22" "c \<noteq> CHR 0x5C"
      | (esc) "c \<noteq> CHR 0x22" "c = CHR 0x5C"
      by blast
    then show ?thesis
    proof cases
      case quote
      with less.prems Cons show ?thesis by simp
    next
      case plain
      with less.prems Cons obtain t' where "parse_string_body r0 = Some (t', r)"
        by (auto split: if_splits dest: cons_char_shorter)
      from IH [OF this] Cons show ?thesis by simp
    next
      case esc
      show ?thesis
      proof (cases r0)
        case Nil
        with esc Cons less.prems show ?thesis by simp
      next
        case r0: (Cons e r1)
        show ?thesis
        proof (cases "e = CHR ''u''")
          case False
          with esc Cons r0 less.prems obtain t' where "parse_string_body r1 = Some (t', r)"
            by (auto split: option.splits dest: cons_char_shorter)
          from IH [OF this] Cons r0 show ?thesis by simp
        next
          case True
          with esc Cons r0 less.prems obtain h1 h2 h3 h4 r2 t' where
            r1: "r1 = h1 # h2 # h3 # h4 # r2" and p: "parse_string_body r2 = Some (t', r)"
            by (auto split: list.splits option.splits if_splits dest: cons_char_shorter)
          from IH [OF p] Cons r0 r1 show ?thesis by simp
        qed
      qed
    qed
  qed
qed

lemma skip_ws_length: "length (skip_ws s) \<le> length s"
  by (simp add: skip_ws_def length_dropWhile_le)

lemma skip_ws_Cons_length: "skip_ws s = c # r \<Longrightarrow> length r < length s"
  using skip_ws_length [of s] by simp

lemma parse_literal_shorter: "parse_literal s = Some (v, r) \<Longrightarrow> length r < length s"
proof -
  assume a: "parse_literal s = Some (v, r)"
  have drop: "length (drop n s) < length s" if "take n s = w" "length w = n" "0 < n" for n w
  proof -
    from that have "n \<le> length s" by (metis length_take min.cobounded1 nat_le_linear take_all)
    with that(3) show ?thesis by simp
  qed
  have num: "length r < length s'" if "parse_unsigned neg s' = Some (v, r)" for neg s'
    using parse_unsigned_E [OF that] by (auto dest: skip_unsigned_shorter)
  show ?thesis
  proof (cases "take 4 s = ''true'' \<or> take 5 s = ''false'' \<or> take 4 s = ''null''")
    case True
    with a drop [of 4 "''true''"] drop [of 5 "''false''"] drop [of 4 "''null''"] show ?thesis
      by (auto simp: parse_literal_def split: if_splits)
  next
    case False
    with a have n: "parse_number s = Some (v, r)" by (simp add: parse_literal_def)
    show ?thesis
    proof (cases s)
      case Nil
      with n show ?thesis by (simp add: parse_number_def)
    next
      case (Cons c t)
      with n num [of True t] num [of False s] show ?thesis
        by (auto simp: parse_number_def split: if_splits)
    qed
  qed
qed


lemma parse_elements_SucE:
  assumes "parse_elements (Suc n) acc s = Some (v, r)"
  obtains (more) x r1 r2 where "parse_value n s = Some (x, r1)" "skip_ws r1 = CHR '','' # r2"
      "parse_elements n (acc @ [x]) r2 = Some (v, r)"
    | (closing) x r1 where "parse_value n s = Some (x, r1)" "skip_ws r1 = CHR '']'' # r"
      "v = JArr (acc @ [x])"
proof (cases "parse_value n s")
  case None
  with assms show ?thesis by simp
next
  case (Some p)
  obtain x r1 where p: "p = (x, r1)" by (cases p)
  show ?thesis
  proof (cases "skip_ws r1")
    case Nil
    with assms Some p show ?thesis by simp
  next
    case (Cons c r2)
    with assms Some p more [of x r1 r2] closing [of x r1] show ?thesis
      by (cases "c = CHR '',''"; cases "c = CHR '']''") auto
  qed
qed

lemma parse_members_SucE:
  assumes "parse_members (Suc n) acc s = Some (v, r)"
  obtains (more) r0 k r1 r2 x r3 r4 where "skip_ws s = CHR 0x22 # r0"
      "parse_string_body r0 = Some (k, r1)" "skip_ws r1 = CHR '':'' # r2"
      "parse_value n r2 = Some (x, r3)" "skip_ws r3 = CHR '','' # r4"
      "parse_members n (obj_set acc k x) r4 = Some (v, r)"
    | (closing) r0 k r1 r2 x r3 where "skip_ws s = CHR 0x22 # r0"
      "parse_string_body r0 = Some (k, r1)" "skip_ws r1 = CHR '':'' # r2"
      "parse_value n r2 = Some (x, r3)" "skip_ws r3 = CHR ''}'' # r"
      "v = JObj (obj_set acc k x)"
proof (cases "skip_ws s")
  case Nil
  with assms show ?thesis by simp
next
  case s: (Cons q r0)
  show ?thesis
  proof (cases "q = CHR 0x22")
    case False
    with assms s show ?thesis by simp
  next
    case q: True
    show ?thesis
    proof (cases "parse_string_body r0")
      case None
      with assms s q show ?thesis by simp
    next
      case (Some kr)
      obtain k r1 where kr: "kr = (k, r1)" by (cases kr)
      show ?thesis
      proof (cases "skip_ws r1")
        case Nil
        with assms s q Some kr show ?thesis by simp
      next
        case r1: (Cons c r2)
        show ?thesis
        proof (cases "c = CHR '':''")
          case False
          with assms s q Some kr r1 show ?thesis by simp
        next
          case c: True
          show ?thesis
          proof (cases "parse_value n r2")
            case None
            with assms s q Some kr r1 c show ?thesis by simp
          next
            case val: (Some p)
            obtain x r3 where p: "p = (x, r3)" by (cases p)
            show ?thesis
            proof (cases "skip_ws r3")
              case Nil
              with assms s q Some kr r1 c val p show ?thesis by simp
            next
              case r3: (Cons d r4)
              have eq: "parse_members (Suc n) acc s
                          = (if d = CHR '','' then parse_members n (obj_set acc k x) r4
                             else if d = CHR ''}'' then Some (JObj (obj_set acc k x), r4)
                             else None)"
                using s q Some kr r1 c val p r3 by simp
              consider (a) "d = CHR '',''" | (b) "d \<noteq> CHR '',''" "d = CHR ''}''"
                | (c) "d \<noteq> CHR '',''" "d \<noteq> CHR ''}''"
                by blast
              then show ?thesis
              proof cases
                case a
                with assms eq have "parse_members n (obj_set acc k x) r4 = Some (v, r)" by simp
                with a s q Some kr r1 c val p r3 show ?thesis by (intro more) simp_all
              next
                case b
                with assms eq have "v = JObj (obj_set acc k x)" "r = r4" by simp_all
                with b s q Some kr r1 c val p r3 show ?thesis by (intro closing) simp_all
              next
                case c
                with assms eq show ?thesis by simp
              qed
            qed
          qed
        qed
      qed
    qed
  qed
qed

lemma parse_value_SucE:
  assumes "parse_value (Suc n) s = Some (v, r)"
  obtains (empty_object) r0 where "skip_ws s = CHR ''{'' # r0" "skip_ws r0 = CHR ''}'' # r" "v = JObj []"
    | (object) r0 d r1 where "skip_ws s = CHR ''{'' # r0" "skip_ws r0 = d # r1" "d \<noteq> CHR ''}''"
        "parse_members n [] (d # r1) = Some (v, r)"
    | (empty_array) r0 where "skip_ws s = CHR ''['' # r0" "skip_ws r0 = CHR '']'' # r" "v = JArr []"
    | (array) r0 d r1 where "skip_ws s = CHR ''['' # r0" "skip_ws r0 = d # r1" "d \<noteq> CHR '']''"
        "parse_elements n [] (d # r1) = Some (v, r)"
    | (string) r0 t where "skip_ws s = CHR 0x22 # r0" "parse_string_body r0 = Some (t, r)" "v = JStr t"
    | (literal) c r0 where "skip_ws s = c # r0" "c \<noteq> CHR ''{''" "c \<noteq> CHR ''[''"
        "c \<noteq> CHR 0x22" "parse_literal (c # r0) = Some (v, r)"
proof (cases "skip_ws s")
  case Nil
  with assms show ?thesis by simp
next
  case (Cons c r0)
  consider (obj) "c = CHR ''{''" | (arr) "c \<noteq> CHR ''{''" "c = CHR ''[''"
    | (str) "c \<noteq> CHR ''{''" "c \<noteq> CHR ''[''" "c = CHR 0x22"
    | (lit) "c \<noteq> CHR ''{''" "c \<noteq> CHR ''[''" "c \<noteq> CHR 0x22"
    by blast
  then show ?thesis
  proof cases
    case obj
    show ?thesis
    proof (cases "skip_ws r0")
      case Nil
      with assms Cons obj show ?thesis by simp
    next
      case r0: (Cons d r1)
      with assms Cons obj empty_object [of r0] object [of r0 d r1] show ?thesis
        by (cases "d = CHR ''}''") auto
    qed
  next
    case arr
    show ?thesis
    proof (cases "skip_ws r0")
      case Nil
      with assms Cons arr show ?thesis by simp
    next
      case r0: (Cons d r1)
      with assms Cons arr empty_array [of r0] array [of r0 d r1] show ?thesis
        by (cases "d = CHR '']''") auto
    qed
  next
    case str
    with assms Cons string [of r0] show ?thesis
      by (cases "parse_string_body r0") auto
  next
    case lit
    with assms Cons literal [of c r0] show ?thesis by simp
  qed
qed

lemma parse_shorter:
  "(\<forall>s v r. parse_value n s = Some (v, r) \<longrightarrow> length r < length s)
   \<and> (\<forall>acc s v r. parse_elements n acc s = Some (v, r) \<longrightarrow> length r < length s)
   \<and> (\<forall>acc s v r. parse_members n acc s = Some (v, r) \<longrightarrow> length r < length s)"
proof (induction n)
  case 0
  then show ?case by simp
next
  case (Suc n)
  have IHv: "\<And>s v r. parse_value n s = Some (v, r) \<Longrightarrow> length r < length s"
    and IHe: "\<And>acc s v r. parse_elements n acc s = Some (v, r) \<Longrightarrow> length r < length s"
    and IHm: "\<And>acc s v r. parse_members n acc s = Some (v, r) \<Longrightarrow> length r < length s"
    using Suc.IH by blast+
  have 1: "length r < length s" if "parse_value (Suc n) s = Some (v, r)" for s v r
    using that
  proof (cases rule: parse_value_SucE)
    case (empty_object r0)
    then show ?thesis using skip_ws_Cons_length [of s] skip_ws_Cons_length [of r0] by fastforce
  next
    case (object r0 d r1)
    then show ?thesis
      using skip_ws_Cons_length [of s] skip_ws_length [of r0] IHm [of "[]" "d # r1" v r] by fastforce
  next
    case (empty_array r0)
    then show ?thesis using skip_ws_Cons_length [of s] skip_ws_Cons_length [of r0] by fastforce
  next
    case (array r0 d r1)
    then show ?thesis
      using skip_ws_Cons_length [of s] skip_ws_length [of r0] IHe [of "[]" "d # r1" v r] by fastforce
  next
    case (string r0 t)
    then show ?thesis
      using skip_ws_Cons_length [of s] parse_string_body_shorter [of r0 t r] by fastforce
  next
    case (literal c r0)
    then show ?thesis using parse_literal_shorter [of "c # r0" v r] skip_ws_length [of s] by simp
  qed
  have 2: "length r < length s" if "parse_elements (Suc n) acc s = Some (v, r)" for acc s v r
    using that
  proof (cases rule: parse_elements_SucE)
    case (more x r1 r2)
    then show ?thesis
      using IHv [of s x r1] skip_ws_Cons_length [of r1] IHe [of "acc @ [x]" r2 v r] by fastforce
  next
    case (closing x r1)
    then show ?thesis using IHv [of s x r1] skip_ws_Cons_length [of r1] by fastforce
  qed
  have 3: "length r < length s" if "parse_members (Suc n) acc s = Some (v, r)" for acc s v r
    using that
  proof (cases rule: parse_members_SucE)
    case (more r0 k r1 r2 x r3 r4)
    then show ?thesis
      using skip_ws_Cons_length [of s] parse_string_body_shorter [of r0 k r1]
        skip_ws_Cons_length [of r1] IHv [of r2 x r3] skip_ws_Cons_length [of r3]
        IHm [of "obj_set acc k x" r4 v r]
      by fastforce
  next
    case (closing r0 k r1 r2 x r3)
    then show ?thesis
      using skip_ws_Cons_length [of s] parse_string_body_shorter [of r0 k r1]
        skip_ws_Cons_length [of r1] IHv [of r2 x r3] skip_ws_Cons_length [of r3]
      by fastforce
  qed
  from 1 2 3 show ?case by blast
qed

lemma parse_value_shorter: "parse_value n s = Some (v, r) \<Longrightarrow> length r < length s"
  using parse_shorter [of n] by blast


lemma parse_value_fuel_step:
  assumes "2 * length s \<le> Suc n"
    and IHe: "\<And>acc s'. 2 * length s' + 1 \<le> n \<Longrightarrow> parse_elements (Suc n) acc s' = parse_elements n acc s'"
    and IHm: "\<And>acc s'. 2 * length s' + 1 \<le> n \<Longrightarrow> parse_members (Suc n) acc s' = parse_members n acc s'"
  shows "parse_value (Suc (Suc n)) s = parse_value (Suc n) s"
proof (cases "skip_ws s")
  case Nil
  then show ?thesis by simp
next
  case (Cons c r0)
  then have l0: "length r0 < length s" by (rule skip_ws_Cons_length)
  show ?thesis
  proof (cases "skip_ws r0")
    case Nil
    with Cons show ?thesis by simp
  next
    case r0: (Cons d r1)
    have "length (d # r1) \<le> length r0" using skip_ws_length [of r0] r0 by simp
    with l0 assms(1) have "2 * length (d # r1) + 1 \<le> n" by simp
    then have "parse_elements (Suc n) [] (d # r1) = parse_elements n [] (d # r1)"
      "parse_members (Suc n) [] (d # r1) = parse_members n [] (d # r1)"
      by (rule IHe, rule IHm)
    with Cons r0 show ?thesis by (auto simp del: parse_elements.simps(2) parse_members.simps(2))
  qed
qed

lemma parse_elements_fuel_step:
  assumes "2 * length s + 1 \<le> Suc n"
    and IHv: "\<And>s'. 2 * length s' \<le> n \<Longrightarrow> parse_value (Suc n) s' = parse_value n s'"
    and IHe: "\<And>acc s'. 2 * length s' + 1 \<le> n \<Longrightarrow> parse_elements (Suc n) acc s' = parse_elements n acc s'"
  shows "parse_elements (Suc (Suc n)) acc s = parse_elements (Suc n) acc s"
proof -
  have v: "parse_value (Suc n) s = parse_value n s" using assms(1) by (intro IHv) simp
  show ?thesis
  proof (cases "parse_value n s")
    case None
    with v show ?thesis by (simp del: parse_value.simps(2))
  next
    case (Some p)
    obtain x r1 where p: "p = (x, r1)" by (cases p)
    with Some have l1: "length r1 < length s" by (auto dest: parse_value_shorter)
    show ?thesis
    proof (cases "skip_ws r1")
      case Nil
      with v Some p show ?thesis by (simp del: parse_value.simps(2))
    next
      case (Cons c r2)
      then have "length r2 < length r1" by (rule skip_ws_Cons_length)
      with l1 assms(1) have "2 * length r2 + 1 \<le> n" by simp
      then have e: "parse_elements (Suc n) (acc @ [x]) r2 = parse_elements n (acc @ [x]) r2"
        by (rule IHe)
      have "parse_elements (Suc (Suc n)) acc s
              = (if c = CHR '','' then parse_elements (Suc n) (acc @ [x]) r2
                 else if c = CHR '']'' then Some (JArr (acc @ [x]), r2) else None)"
        using v Some p Cons by (simp del: parse_value.simps(2) parse_elements.simps(2) add: parse_elements.simps(2) [of "Suc n"])
      moreover have "parse_elements (Suc n) acc s
              = (if c = CHR '','' then parse_elements n (acc @ [x]) r2
                 else if c = CHR '']'' then Some (JArr (acc @ [x]), r2) else None)"
        using Some p Cons by (simp del: parse_value.simps(2))
      ultimately show ?thesis using e by (simp del: parse_value.simps(2) parse_elements.simps(2) parse_members.simps(2))
    qed
  qed
qed

lemma parse_members_fuel_step:
  assumes "2 * length s + 1 \<le> Suc n"
    and IHv: "\<And>s'. 2 * length s' \<le> n \<Longrightarrow> parse_value (Suc n) s' = parse_value n s'"
    and IHm: "\<And>acc s'. 2 * length s' + 1 \<le> n \<Longrightarrow> parse_members (Suc n) acc s' = parse_members n acc s'"
  shows "parse_members (Suc (Suc n)) acc s = parse_members (Suc n) acc s"
proof (cases "skip_ws s")
  case Nil
  then show ?thesis by simp
next
  case s: (Cons q r0)
  then have l0: "length r0 < length s" by (rule skip_ws_Cons_length)
  show ?thesis
  proof (cases "parse_string_body r0")
    case None
    with s show ?thesis by simp
  next
    case (Some kr)
    obtain k r1 where kr: "kr = (k, r1)" by (cases kr)
    with Some have l1: "length r1 < length r0" by (auto dest: parse_string_body_shorter)
    show ?thesis
    proof (cases "skip_ws r1")
      case Nil
      with s Some kr show ?thesis by simp
    next
      case r1: (Cons c r2)
      then have l2: "length r2 < length r1" by (rule skip_ws_Cons_length)
      with l0 l1 assms(1) have "2 * length r2 \<le> n" by simp
      then have v: "parse_value (Suc n) r2 = parse_value n r2" by (rule IHv)
      show ?thesis
      proof (cases "parse_value n r2")
        case None
        with s Some kr r1 v show ?thesis by (simp del: parse_value.simps(2))
      next
        case val: (Some p)
        obtain x r3 where p: "p = (x, r3)" by (cases p)
        with val have l3: "length r3 < length r2" by (auto dest: parse_value_shorter)
        show ?thesis
        proof (cases "skip_ws r3")
          case Nil
          with s Some kr r1 v val p show ?thesis by (simp del: parse_value.simps(2))
        next
          case r3: (Cons d r4)
          then have "length r4 < length r3" by (rule skip_ws_Cons_length)
          with l0 l1 l2 l3 assms(1) have "2 * length r4 + 1 \<le> n" by simp
          then have m: "parse_members (Suc n) (obj_set acc k x) r4 = parse_members n (obj_set acc k x) r4"
            by (rule IHm)
          have "parse_members (Suc (Suc n)) acc s
                  = (if q \<noteq> CHR 0x22 then None else if c \<noteq> CHR '':'' then None
                     else if d = CHR '','' then parse_members (Suc n) (obj_set acc k x) r4
                     else if d = CHR ''}'' then Some (JObj (obj_set acc k x), r4) else None)"
            using s Some kr r1 v val p r3
            by (simp del: parse_value.simps(2) parse_members.simps(2) add: parse_members.simps(2) [of "Suc n"])
          moreover have "parse_members (Suc n) acc s
                  = (if q \<noteq> CHR 0x22 then None else if c \<noteq> CHR '':'' then None
                     else if d = CHR '','' then parse_members n (obj_set acc k x) r4
                     else if d = CHR ''}'' then Some (JObj (obj_set acc k x), r4) else None)"
            using s Some kr r1 val p r3 by (simp del: parse_value.simps(2))
          ultimately show ?thesis using m by (simp del: parse_value.simps(2) parse_elements.simps(2) parse_members.simps(2))
        qed
      qed
    qed
  qed
qed

lemma parse_fuel_step:
  "(\<forall>s. 2 * length s \<le> n \<longrightarrow> parse_value (Suc n) s = parse_value n s)
   \<and> (\<forall>acc s. 2 * length s + 1 \<le> n \<longrightarrow> parse_elements (Suc n) acc s = parse_elements n acc s)
   \<and> (\<forall>acc s. 2 * length s + 1 \<le> n \<longrightarrow> parse_members (Suc n) acc s = parse_members n acc s)"
proof (induction n)
  case 0
  then show ?case by (simp add: skip_ws_def)
next
  case (Suc n)
  have IHv: "\<And>s'. 2 * length s' \<le> n \<Longrightarrow> parse_value (Suc n) s' = parse_value n s'"
    and IHe: "\<And>acc s'. 2 * length s' + 1 \<le> n \<Longrightarrow> parse_elements (Suc n) acc s' = parse_elements n acc s'"
    and IHm: "\<And>acc s'. 2 * length s' + 1 \<le> n \<Longrightarrow> parse_members (Suc n) acc s' = parse_members n acc s'"
    using Suc.IH by blast+
  have 1: "parse_value (Suc (Suc n)) s = parse_value (Suc n) s" if "2 * length s \<le> Suc n" for s
    using that IHe IHm by (rule parse_value_fuel_step)
  have 2: "parse_elements (Suc (Suc n)) acc s = parse_elements (Suc n) acc s"
    if "2 * length s + 1 \<le> Suc n" for acc s
    using that IHv IHe by (rule parse_elements_fuel_step)
  have 3: "parse_members (Suc (Suc n)) acc s = parse_members (Suc n) acc s"
    if "2 * length s + 1 \<le> Suc n" for acc s
    using that IHv IHm by (rule parse_members_fuel_step)
  from 1 2 3 show ?case by blast
qed

lemma parse_value_fuel: "2 * length s \<le> n \<Longrightarrow> n \<le> m \<Longrightarrow> parse_value m s = parse_value n s"
proof (induction m)
  case 0
  then show ?case by simp
next
  case (Suc m)
  show ?case
  proof (cases "n = Suc m")
    case True
    then show ?thesis by simp
  next
    case False
    with Suc.prems have "n \<le> m" by simp
    moreover from this Suc.prems(1) have "2 * length s \<le> m" by simp
    ultimately show ?thesis using Suc.IH Suc.prems(1) parse_fuel_step [of m] by simp
  qed
qed


lemma parse_mono_step:
  "(\<forall>s x. parse_value n s = Some x \<longrightarrow> parse_value (Suc n) s = Some x)
   \<and> (\<forall>acc s x. parse_elements n acc s = Some x \<longrightarrow> parse_elements (Suc n) acc s = Some x)
   \<and> (\<forall>acc s x. parse_members n acc s = Some x \<longrightarrow> parse_members (Suc n) acc s = Some x)"
proof (induction n)
  case 0
  then show ?case by simp
next
  case (Suc n)
  have IHv: "\<And>s x. parse_value n s = Some x \<Longrightarrow> parse_value (Suc n) s = Some x"
    and IHe: "\<And>acc s x. parse_elements n acc s = Some x \<Longrightarrow> parse_elements (Suc n) acc s = Some x"
    and IHm: "\<And>acc s x. parse_members n acc s = Some x \<Longrightarrow> parse_members (Suc n) acc s = Some x"
    using Suc.IH by blast+
  have 1: "parse_value (Suc (Suc n)) s = Some (v, r)" if "parse_value (Suc n) s = Some (v, r)"
    for s v r
  proof -
    note x = refl [of "(v, r)"]
    from that show ?thesis
    proof (cases rule: parse_value_SucE)
      case (object r0 d r1)
      from IHm [OF object(4)] object(1-3) show ?thesis
        by (simp del: parse_members.simps(2))
    next
      case (array r0 d r1)
      from IHe [OF array(4)] array(1-3) show ?thesis
        by (simp del: parse_elements.simps(2))
    next
      case (literal c r0)
      then show ?thesis by simp
    qed simp_all
  qed
  have 2: "parse_elements (Suc (Suc n)) acc s = Some (v, r)"
    if "parse_elements (Suc n) acc s = Some (v, r)" for acc s v r
  proof -
    from that show ?thesis
    proof (cases rule: parse_elements_SucE)
      case (more y r1 r2)
      from IHv [OF more(1)] IHe [OF more(3)] more(2) show ?thesis
        by (simp del: parse_value.simps(2) parse_elements.simps(2)
                 add: parse_elements.simps(2) [of "Suc n"])
    next
      case (closing y r1)
      from IHv [OF closing(1)] closing(2,3) show ?thesis
        by (simp del: parse_value.simps(2) parse_elements.simps(2)
                 add: parse_elements.simps(2) [of "Suc n"])
    qed
  qed
  have 3: "parse_members (Suc (Suc n)) acc s = Some (v, r)"
    if "parse_members (Suc n) acc s = Some (v, r)" for acc s v r
  proof -
    from that show ?thesis
    proof (cases rule: parse_members_SucE)
      case (more r0 k r1 r2 y r3 r4)
      from IHv [OF more(4)] IHm [OF more(6)] more(1,2,3,5) show ?thesis
        by (simp del: parse_value.simps(2) parse_members.simps(2)
                 add: parse_members.simps(2) [of "Suc n"])
    next
      case (closing r0 k r1 r2 y r3)
      from IHv [OF closing(4)] closing(1,2,3,5,6) show ?thesis
        by (simp del: parse_value.simps(2) parse_members.simps(2)
                 add: parse_members.simps(2) [of "Suc n"])
    qed
  qed
  from 1 2 3 show ?case by auto
qed

lemma parse_value_mono: "parse_value n s = Some x \<Longrightarrow> n \<le> m \<Longrightarrow> parse_value m s = Some x"
proof (induction m)
  case 0
  then show ?case by simp
next
  case (Suc m)
  show ?case
  proof (cases "n = Suc m")
    case True
    with Suc.prems show ?thesis by simp
  next
    case False
    with Suc.prems have "parse_value m s = Some x" by (intro Suc.IH) simp_all
    then show ?thesis using parse_mono_step [of m] by blast
  qed
qed

lemma JSON_parse_any_fuel:
  assumes "parse_value n s = Some (v, r)" and "skip_ws r = []"
  shows "JSON_parse s = Some v"
proof -
  let ?b = "2 * length s + 2"
  have "parse_value ?b s = Some (v, r)"
  proof (cases "n \<le> ?b")
    case True
    with assms(1) show ?thesis by (rule parse_value_mono)
  next
    case False
    then have "parse_value n s = parse_value ?b s" by (intro parse_value_fuel) simp_all
    with assms(1) show ?thesis by simp
  qed
  with assms(2) show ?thesis by (simp add: JSON_parse_def)
qed

lemma JSON_parse_iff:
  "JSON_parse s = Some v \<longleftrightarrow> (\<exists>n r. parse_value n s = Some (v, r) \<and> skip_ws r = [])"
proof
  assume a: "JSON_parse s = Some v"
  show "\<exists>n r. parse_value n s = Some (v, r) \<and> skip_ws r = []"
  proof (cases "parse_value (2 * length s + 2) s")
    case None
    with a show ?thesis by (simp only: JSON_parse_def option.case) simp
  next
    case (Some p)
    obtain v' r where p: "p = (v', r)" by (cases p)
    with a Some have "v' = v" "skip_ws r = []"
      by (simp_all only: JSON_parse_def option.case prod.case split: if_splits) simp_all
    with Some p show ?thesis by blast
  qed
next
  assume "\<exists>n r. parse_value n s = Some (v, r) \<and> skip_ws r = []"
  then show "JSON_parse s = Some v" using JSON_parse_any_fuel by blast
qed


lemma parse_plain:
  "(\<forall>s v r. parse_value n s = Some (v, r) \<longrightarrow> plain v)
   \<and> (\<forall>xs s v r. (\<forall>x \<in> set xs. plain x) \<longrightarrow> parse_elements n xs s = Some (v, r) \<longrightarrow> plain v)
   \<and> (\<forall>kvs s v r. plain (JObj kvs) \<longrightarrow> parse_members n kvs s = Some (v, r) \<longrightarrow> plain v)"
proof (induction n)
  case 0
  then show ?case by simp
next
  case (Suc n)
  have IHv: "\<And>s v r. parse_value n s = Some (v, r) \<Longrightarrow> plain v"
    and IHe: "\<And>xs s v r. \<forall>x \<in> set xs. plain x \<Longrightarrow> parse_elements n xs s = Some (v, r) \<Longrightarrow> plain v"
    and IHm: "\<And>kvs s v r. plain (JObj kvs) \<Longrightarrow> parse_members n kvs s = Some (v, r) \<Longrightarrow> plain v"
    using Suc.IH by blast+
  have 1: "plain v" if "parse_value (Suc n) s = Some (v, r)" for s v r
    using that
  proof (cases rule: parse_value_SucE)
    case (object r0 d r1)
    then show ?thesis using IHm [of "[]"] by simp
  next
    case (array r0 d r1)
    then show ?thesis using IHe [of "[]"] by simp
  next
    case (literal c r0)
    then show ?thesis by (auto dest: parse_literal_plain)
  qed simp_all
  have 2: "plain v" if "\<forall>x \<in> set xs. plain x" "parse_elements (Suc n) xs s = Some (v, r)" for xs s v r
    using that(2)
  proof (cases rule: parse_elements_SucE)
    case (more x r1 r2)
    from IHv [OF more(1)] that(1) have "\<forall>y \<in> set (xs @ [x]). plain y" by simp
    then show ?thesis using more(3) by (rule IHe)
  next
    case (closing x r1)
    from IHv [OF closing(1)] that(1) closing(3) show ?thesis by simp
  qed
  have 3: "plain v" if "plain (JObj kvs)" "parse_members (Suc n) kvs s = Some (v, r)" for kvs s v r
    using that(2)
  proof (cases rule: parse_members_SucE)
    case (more r0 k r1 r2 x r3 r4)
    from IHv [OF more(4)] that(1) have "plain (JObj (obj_set kvs k x))" by (intro plain_obj_set)
    then show ?thesis using more(6) by (rule IHm)
  next
    case (closing r0 k r1 r2 x r3)
    from IHv [OF closing(4)] that(1) have "plain (JObj (obj_set kvs k x))" by (intro plain_obj_set)
    then show ?thesis using closing(6) by simp
  qed
  from 1 2 3 show ?case by blast
qed

lemma JSON_parse_plain: "JSON_parse s = Some v \<Longrightarrow> plain v"
proof -
  assume a: "JSON_parse s = Some v"
  then obtain r where "parse_value (2 * length s + 2) s = Some (v, r)"
    by (auto simp: JSON_parse_def split: option.splits if_splits)
  then show "plain v" using parse_plain [of "2 * length s + 2"] by blast
qed

subsection \<open>The grammar and the parser\<close>

text \<open>
  The recogniser of the grammar consumes input as the parser does, so its bound is never
  reached either: \<open>JSON_syntax\<close> holds exactly when the recogniser accepts the whole
  text with some bound. Every text that \<open>JSON_parse\<close> gives a value for is a text of the
  grammar.
\<close>

lemma skip_string_body_shorter: "skip_string_body s = Some r \<Longrightarrow> length r < length s"
proof (induction "length s" arbitrary: s rule: less_induct)
  case less
  show ?case
  proof (cases s)
    case Nil
    with less.prems show ?thesis by simp
  next
    case (Cons c r0)
    have IH: "length r < length s'" if "skip_string_body s' = Some r" "length s' < length s" for s'
      using less.hyps that by blast
    consider (quote) "c = CHR 0x22"
      | (plain) "c \<noteq> CHR 0x22" "c \<noteq> CHR 0x5C"
      | (esc) "c \<noteq> CHR 0x22" "c = CHR 0x5C"
      by blast
    then show ?thesis
    proof cases
      case quote
      with less.prems Cons show ?thesis by simp
    next
      case plain
      with less.prems Cons have "skip_string_body r0 = Some r"
        by (auto split: if_splits)
      from IH [OF this] Cons show ?thesis by simp
    next
      case esc
      show ?thesis
      proof (cases r0)
        case Nil
        with esc Cons less.prems show ?thesis by simp
      next
        case r0: (Cons e r1)
        show ?thesis
        proof (cases "e = CHR ''u''")
          case False
          with esc Cons r0 less.prems have "skip_string_body r1 = Some r"
            by (auto split: option.splits)
          from IH [OF this] Cons r0 show ?thesis by simp
        next
          case True
          with esc Cons r0 less.prems obtain h1 h2 h3 h4 r2 where
            r1: "r1 = h1 # h2 # h3 # h4 # r2" and p: "skip_string_body r2 = Some r"
            by (auto split: list.splits option.splits if_splits)
          from IH [OF p] Cons r0 r1 show ?thesis by simp
        qed
      qed
    qed
  qed
qed

lemma skip_string_body_parsed:
  "parse_string_body s = Some (t, r) \<Longrightarrow> skip_string_body s = Some r"
proof (induction "length s" arbitrary: s t rule: less_induct)
  case less
  show ?case
  proof (cases s)
    case Nil
    with less.prems show ?thesis by simp
  next
    case (Cons c r0)
    have IH: "skip_string_body s' = Some r" if "parse_string_body s' = Some (t', r)" "length s' < length s"
      for s' t'
      using less.hyps that by blast
    consider (quote) "c = CHR 0x22"
      | (plain) "c \<noteq> CHR 0x22" "c \<noteq> CHR 0x5C"
      | (esc) "c \<noteq> CHR 0x22" "c = CHR 0x5C"
      by blast
    then show ?thesis
    proof cases
      case quote
      with less.prems Cons show ?thesis by simp
    next
      case plain
      with less.prems Cons obtain t' where p: "parse_string_body r0 = Some (t', r)"
        and c: "\<not> (of_char c :: nat) < 32"
        by (auto split: if_splits dest: cons_char_shorter)
      from IH [OF p] Cons have "skip_string_body r0 = Some r" by simp
      with plain c Cons show ?thesis by simp
    next
      case esc
      show ?thesis
      proof (cases r0)
        case Nil
        with esc Cons less.prems show ?thesis by simp
      next
        case r0: (Cons e r1)
        show ?thesis
        proof (cases "e = CHR ''u''")
          case False
          with esc Cons r0 less.prems obtain t' ch where p: "parse_string_body r1 = Some (t', r)"
            and u: "unescape e = Some ch"
            by (auto split: option.splits dest: cons_char_shorter)
          from IH [OF p] Cons r0 have "skip_string_body r1 = Some r" by simp
          with esc False u Cons r0 show ?thesis by simp
        next
          case True
          with esc Cons r0 less.prems obtain h1 h2 h3 h4 r2 t' n where
            r1: "r1 = h1 # h2 # h3 # h4 # r2" and p: "parse_string_body r2 = Some (t', r)"
            and h: "hex4 h1 h2 h3 h4 = Some n"
            by (auto split: list.splits option.splits if_splits dest: cons_char_shorter)
          from IH [OF p] Cons r0 r1 have "skip_string_body r2 = Some r" by simp
          with esc True h Cons r0 r1 show ?thesis by simp
        qed
      qed
    qed
  qed
qed

lemma skip_literal_shorter: "skip_literal s = Some r \<Longrightarrow> length r < length s"
proof -
  assume a: "skip_literal s = Some r"
  have drop: "length (drop n s) < length s" if "take n s = w" "length w = n" "0 < n" for n w
  proof -
    from that have "n \<le> length s" by (metis length_take min.cobounded1 nat_le_linear take_all)
    with that(3) show ?thesis by simp
  qed
  show ?thesis
  proof (cases "take 4 s = ''true'' \<or> take 5 s = ''false'' \<or> take 4 s = ''null''")
    case True
    with a drop [of 4 "''true''"] drop [of 5 "''false''"] drop [of 4 "''null''"] show ?thesis
      by (auto simp: skip_literal_def split: if_splits)
  next
    case False
    with a have n: "skip_number s = Some r" by (simp add: skip_literal_def)
    show ?thesis
    proof (cases s)
      case Nil
      with n show ?thesis by (simp add: skip_number_def)
    next
      case (Cons c t)
      with n skip_unsigned_shorter [of t r] skip_unsigned_shorter [of s r] show ?thesis
        by (auto simp: skip_number_def split: if_splits)
    qed
  qed
qed

lemma skip_unsigned_parsed: "parse_unsigned neg s = Some (v, r) \<Longrightarrow> skip_unsigned s = Some r"
  using parse_unsigned_E by blast

lemma skip_literal_parsed: "parse_literal s = Some (v, r) \<Longrightarrow> skip_literal s = Some r"
proof -
  assume a: "parse_literal s = Some (v, r)"
  show ?thesis
  proof (cases "take 4 s = ''true'' \<or> take 5 s = ''false'' \<or> take 4 s = ''null''")
    case True
    with a show ?thesis by (auto simp: parse_literal_def skip_literal_def split: if_splits)
  next
    case False
    with a have n: "parse_number s = Some (v, r)" by (simp add: parse_literal_def)
    have "skip_number s = Some r"
    proof (cases s)
      case Nil
      with n show ?thesis by (simp add: parse_number_def)
    next
      case (Cons c t)
      with n skip_unsigned_parsed [of True t v r] skip_unsigned_parsed [of False s v r] show ?thesis
        by (auto simp: parse_number_def skip_number_def split: if_splits)
    qed
    with False show ?thesis by (simp add: skip_literal_def)
  qed
qed


lemma skip_elements_SucE:
  assumes "skip_elements (Suc n) s = Some r"
  obtains (more) r1 r2 where "skip_value n s = Some r1" "skip_ws r1 = CHR '','' # r2"
      "skip_elements n r2 = Some r"
    | (closing) r1 where "skip_value n s = Some r1" "skip_ws r1 = CHR '']'' # r"
proof (cases "skip_value n s")
  case None
  with assms show ?thesis by simp
next
  case (Some r1)
  show ?thesis
  proof (cases "skip_ws r1")
    case Nil
    with assms Some show ?thesis by simp
  next
    case (Cons c r2)
    with assms Some more [of r1 r2] closing [of r1] show ?thesis
      by (cases "c = CHR '',''"; cases "c = CHR '']''") auto
  qed
qed

lemma skip_members_SucE:
  assumes "skip_members (Suc n) s = Some r"
  obtains (more) r0 r1 r2 r3 r4 where "skip_ws s = CHR 0x22 # r0"
      "skip_string_body r0 = Some r1" "skip_ws r1 = CHR '':'' # r2"
      "skip_value n r2 = Some r3" "skip_ws r3 = CHR '','' # r4"
      "skip_members n r4 = Some r"
    | (closing) r0 r1 r2 r3 where "skip_ws s = CHR 0x22 # r0"
      "skip_string_body r0 = Some r1" "skip_ws r1 = CHR '':'' # r2"
      "skip_value n r2 = Some r3" "skip_ws r3 = CHR ''}'' # r"
proof (cases "skip_ws s")
  case Nil
  with assms show ?thesis by simp
next
  case s: (Cons q r0)
  show ?thesis
  proof (cases "q = CHR 0x22")
    case False
    with assms s show ?thesis by simp
  next
    case q: True
    show ?thesis
    proof (cases "skip_string_body r0")
      case None
      with assms s q show ?thesis by simp
    next
      case (Some r1)
      show ?thesis
      proof (cases "skip_ws r1")
        case Nil
        with assms s q Some show ?thesis by simp
      next
        case r1: (Cons c r2)
        show ?thesis
        proof (cases "c = CHR '':''")
          case False
          with assms s q Some r1 show ?thesis by simp
        next
          case c: True
          show ?thesis
          proof (cases "skip_value n r2")
            case None
            with assms s q Some r1 c show ?thesis by simp
          next
            case val: (Some r3)
            show ?thesis
            proof (cases "skip_ws r3")
              case Nil
              with assms s q Some r1 c val show ?thesis by simp
            next
              case r3: (Cons d r4)
              have eq: "skip_members (Suc n) s
                          = (if d = CHR '','' then skip_members n r4
                             else if d = CHR ''}'' then Some r4
                             else None)"
                using s q Some r1 c val r3 by simp
              consider (a) "d = CHR '',''" | (b) "d \<noteq> CHR '',''" "d = CHR ''}''"
                | (c) "d \<noteq> CHR '',''" "d \<noteq> CHR ''}''"
                by blast
              then show ?thesis
              proof cases
                case a
                with assms eq have "skip_members n r4 = Some r" by simp
                with a s q Some r1 c val r3 show ?thesis by (intro more) simp_all
              next
                case b
                with assms eq have "r = r4" by simp
                with b s q Some r1 c val r3 show ?thesis by (intro closing) simp_all
              next
                case c
                with assms eq show ?thesis by simp
              qed
            qed
          qed
        qed
      qed
    qed
  qed
qed

lemma skip_value_SucE:
  assumes "skip_value (Suc n) s = Some r"
  obtains (empty_object) r0 where "skip_ws s = CHR ''{'' # r0" "skip_ws r0 = CHR ''}'' # r"
    | (object) r0 d r1 where "skip_ws s = CHR ''{'' # r0" "skip_ws r0 = d # r1" "d \<noteq> CHR ''}''"
        "skip_members n (d # r1) = Some r"
    | (empty_array) r0 where "skip_ws s = CHR ''['' # r0" "skip_ws r0 = CHR '']'' # r"
    | (array) r0 d r1 where "skip_ws s = CHR ''['' # r0" "skip_ws r0 = d # r1" "d \<noteq> CHR '']''"
        "skip_elements n (d # r1) = Some r"
    | (string) r0 where "skip_ws s = CHR 0x22 # r0" "skip_string_body r0 = Some r"
    | (literal) c r0 where "skip_ws s = c # r0" "c \<noteq> CHR ''{''" "c \<noteq> CHR ''[''"
        "c \<noteq> CHR 0x22" "skip_literal (c # r0) = Some r"
proof (cases "skip_ws s")
  case Nil
  with assms show ?thesis by simp
next
  case (Cons c r0)
  consider (obj) "c = CHR ''{''" | (arr) "c \<noteq> CHR ''{''" "c = CHR ''[''"
    | (str) "c \<noteq> CHR ''{''" "c \<noteq> CHR ''[''" "c = CHR 0x22"
    | (lit) "c \<noteq> CHR ''{''" "c \<noteq> CHR ''[''" "c \<noteq> CHR 0x22"
    by blast
  then show ?thesis
  proof cases
    case obj
    show ?thesis
    proof (cases "skip_ws r0")
      case Nil
      with assms Cons obj show ?thesis by simp
    next
      case r0: (Cons d r1)
      with assms Cons obj empty_object [of r0] object [of r0 d r1] show ?thesis
        by (cases "d = CHR ''}''") auto
    qed
  next
    case arr
    show ?thesis
    proof (cases "skip_ws r0")
      case Nil
      with assms Cons arr show ?thesis by simp
    next
      case r0: (Cons d r1)
      with assms Cons arr empty_array [of r0] array [of r0 d r1] show ?thesis
        by (cases "d = CHR '']''") auto
    qed
  next
    case str
    with assms Cons string [of r0] show ?thesis by simp
  next
    case lit
    with assms Cons literal [of c r0] show ?thesis by simp
  qed
qed

lemma skip_shorter:
  "(\<forall>s r. skip_value n s = Some r \<longrightarrow> length r < length s)
   \<and> (\<forall>s r. skip_elements n s = Some r \<longrightarrow> length r < length s)
   \<and> (\<forall>s r. skip_members n s = Some r \<longrightarrow> length r < length s)"
proof (induction n)
  case 0
  then show ?case by simp
next
  case (Suc n)
  have IHv: "\<And>s r. skip_value n s = Some r \<Longrightarrow> length r < length s"
    and IHe: "\<And>s r. skip_elements n s = Some r \<Longrightarrow> length r < length s"
    and IHm: "\<And>s r. skip_members n s = Some r \<Longrightarrow> length r < length s"
    using Suc.IH by blast+
  have 1: "length r < length s" if "skip_value (Suc n) s = Some r" for s r
    using that
  proof (cases rule: skip_value_SucE)
    case (empty_object r0)
    then show ?thesis using skip_ws_Cons_length [of s] skip_ws_Cons_length [of r0] by fastforce
  next
    case (object r0 d r1)
    then show ?thesis
      using skip_ws_Cons_length [of s] skip_ws_length [of r0] IHm [of "d # r1" r] by fastforce
  next
    case (empty_array r0)
    then show ?thesis using skip_ws_Cons_length [of s] skip_ws_Cons_length [of r0] by fastforce
  next
    case (array r0 d r1)
    then show ?thesis
      using skip_ws_Cons_length [of s] skip_ws_length [of r0] IHe [of "d # r1" r] by fastforce
  next
    case (string r0)
    then show ?thesis
      using skip_ws_Cons_length [of s] skip_string_body_shorter [of r0 r] by fastforce
  next
    case (literal c r0)
    then show ?thesis using skip_literal_shorter [of "c # r0" r] skip_ws_length [of s] by simp
  qed
  have 2: "length r < length s" if "skip_elements (Suc n) s = Some r" for s r
    using that
  proof (cases rule: skip_elements_SucE)
    case (more r1 r2)
    then show ?thesis
      using IHv [of s r1] skip_ws_Cons_length [of r1] IHe [of r2 r] by fastforce
  next
    case (closing r1)
    then show ?thesis using IHv [of s r1] skip_ws_Cons_length [of r1] by fastforce
  qed
  have 3: "length r < length s" if "skip_members (Suc n) s = Some r" for s r
    using that
  proof (cases rule: skip_members_SucE)
    case (more r0 r1 r2 r3 r4)
    then show ?thesis
      using skip_ws_Cons_length [of s] skip_string_body_shorter [of r0 r1]
        skip_ws_Cons_length [of r1] IHv [of r2 r3] skip_ws_Cons_length [of r3]
        IHm [of r4 r]
      by fastforce
  next
    case (closing r0 r1 r2 r3)
    then show ?thesis
      using skip_ws_Cons_length [of s] skip_string_body_shorter [of r0 r1]
        skip_ws_Cons_length [of r1] IHv [of r2 r3] skip_ws_Cons_length [of r3]
      by fastforce
  qed
  from 1 2 3 show ?case by blast
qed

lemma skip_value_shorter: "skip_value n s = Some r \<Longrightarrow> length r < length s"
  using skip_shorter [of n] by blast

lemma skip_value_fuel_step:
  assumes "2 * length s \<le> Suc n"
    and IHe: "\<And>s'. 2 * length s' + 1 \<le> n \<Longrightarrow> skip_elements (Suc n) s' = skip_elements n s'"
    and IHm: "\<And>s'. 2 * length s' + 1 \<le> n \<Longrightarrow> skip_members (Suc n) s' = skip_members n s'"
  shows "skip_value (Suc (Suc n)) s = skip_value (Suc n) s"
proof (cases "skip_ws s")
  case Nil
  then show ?thesis by simp
next
  case (Cons c r0)
  then have l0: "length r0 < length s" by (rule skip_ws_Cons_length)
  show ?thesis
  proof (cases "skip_ws r0")
    case Nil
    with Cons show ?thesis by simp
  next
    case r0: (Cons d r1)
    have "length (d # r1) \<le> length r0" using skip_ws_length [of r0] r0 by simp
    with l0 assms(1) have "2 * length (d # r1) + 1 \<le> n" by simp
    then have "skip_elements (Suc n) (d # r1) = skip_elements n (d # r1)"
      "skip_members (Suc n) (d # r1) = skip_members n (d # r1)"
      by (rule IHe, rule IHm)
    with Cons r0 show ?thesis by (auto simp del: skip_elements.simps(2) skip_members.simps(2))
  qed
qed

lemma skip_elements_fuel_step:
  assumes "2 * length s + 1 \<le> Suc n"
    and IHv: "\<And>s'. 2 * length s' \<le> n \<Longrightarrow> skip_value (Suc n) s' = skip_value n s'"
    and IHe: "\<And>s'. 2 * length s' + 1 \<le> n \<Longrightarrow> skip_elements (Suc n) s' = skip_elements n s'"
  shows "skip_elements (Suc (Suc n)) s = skip_elements (Suc n) s"
proof -
  have v: "skip_value (Suc n) s = skip_value n s" using assms(1) by (intro IHv) simp
  show ?thesis
  proof (cases "skip_value n s")
    case None
    with v show ?thesis by (simp del: skip_value.simps(2))
  next
    case (Some r1)
    then have l1: "length r1 < length s" by (auto dest: skip_value_shorter)
    show ?thesis
    proof (cases "skip_ws r1")
      case Nil
      with v Some show ?thesis by (simp del: skip_value.simps(2))
    next
      case (Cons c r2)
      then have "length r2 < length r1" by (rule skip_ws_Cons_length)
      with l1 assms(1) have "2 * length r2 + 1 \<le> n" by simp
      then have e: "skip_elements (Suc n) r2 = skip_elements n r2"
        by (rule IHe)
      have "skip_elements (Suc (Suc n)) s
              = (if c = CHR '','' then skip_elements (Suc n) r2
                 else if c = CHR '']'' then Some r2 else None)"
        using v Some Cons
        by (simp del: skip_value.simps(2) skip_elements.simps(2) add: skip_elements.simps(2) [of "Suc n"])
      moreover have "skip_elements (Suc n) s
              = (if c = CHR '','' then skip_elements n r2
                 else if c = CHR '']'' then Some r2 else None)"
        using Some Cons by (simp del: skip_value.simps(2))
      ultimately show ?thesis using e
        by (simp del: skip_value.simps(2) skip_elements.simps(2) skip_members.simps(2))
    qed
  qed
qed

lemma skip_members_fuel_step:
  assumes "2 * length s + 1 \<le> Suc n"
    and IHv: "\<And>s'. 2 * length s' \<le> n \<Longrightarrow> skip_value (Suc n) s' = skip_value n s'"
    and IHm: "\<And>s'. 2 * length s' + 1 \<le> n \<Longrightarrow> skip_members (Suc n) s' = skip_members n s'"
  shows "skip_members (Suc (Suc n)) s = skip_members (Suc n) s"
proof (cases "skip_ws s")
  case Nil
  then show ?thesis by simp
next
  case s: (Cons q r0)
  then have l0: "length r0 < length s" by (rule skip_ws_Cons_length)
  show ?thesis
  proof (cases "skip_string_body r0")
    case None
    with s show ?thesis by simp
  next
    case (Some r1)
    then have l1: "length r1 < length r0" by (auto dest: skip_string_body_shorter)
    show ?thesis
    proof (cases "skip_ws r1")
      case Nil
      with s Some show ?thesis by simp
    next
      case r1: (Cons c r2)
      then have l2: "length r2 < length r1" by (rule skip_ws_Cons_length)
      with l0 l1 assms(1) have "2 * length r2 \<le> n" by simp
      then have v: "skip_value (Suc n) r2 = skip_value n r2" by (rule IHv)
      show ?thesis
      proof (cases "skip_value n r2")
        case None
        with s Some r1 v show ?thesis by (simp del: skip_value.simps(2))
      next
        case val: (Some r3)
        then have l3: "length r3 < length r2" by (auto dest: skip_value_shorter)
        show ?thesis
        proof (cases "skip_ws r3")
          case Nil
          with s Some r1 v val show ?thesis by (simp del: skip_value.simps(2))
        next
          case r3: (Cons d r4)
          then have "length r4 < length r3" by (rule skip_ws_Cons_length)
          with l0 l1 l2 l3 assms(1) have "2 * length r4 + 1 \<le> n" by simp
          then have m: "skip_members (Suc n) r4 = skip_members n r4"
            by (rule IHm)
          have "skip_members (Suc (Suc n)) s
                  = (if q \<noteq> CHR 0x22 then None else if c \<noteq> CHR '':'' then None
                     else if d = CHR '','' then skip_members (Suc n) r4
                     else if d = CHR ''}'' then Some r4 else None)"
            using s Some r1 v val r3
            by (simp del: skip_value.simps(2) skip_members.simps(2) add: skip_members.simps(2) [of "Suc n"])
          moreover have "skip_members (Suc n) s
                  = (if q \<noteq> CHR 0x22 then None else if c \<noteq> CHR '':'' then None
                     else if d = CHR '','' then skip_members n r4
                     else if d = CHR ''}'' then Some r4 else None)"
            using s Some r1 val r3 by (simp del: skip_value.simps(2))
          ultimately show ?thesis using m
            by (simp del: skip_value.simps(2) skip_elements.simps(2) skip_members.simps(2))
        qed
      qed
    qed
  qed
qed

lemma skip_fuel_step:
  "(\<forall>s. 2 * length s \<le> n \<longrightarrow> skip_value (Suc n) s = skip_value n s)
   \<and> (\<forall>s. 2 * length s + 1 \<le> n \<longrightarrow> skip_elements (Suc n) s = skip_elements n s)
   \<and> (\<forall>s. 2 * length s + 1 \<le> n \<longrightarrow> skip_members (Suc n) s = skip_members n s)"
proof (induction n)
  case 0
  then show ?case by (simp add: skip_ws_def)
next
  case (Suc n)
  have IHv: "\<And>s'. 2 * length s' \<le> n \<Longrightarrow> skip_value (Suc n) s' = skip_value n s'"
    and IHe: "\<And>s'. 2 * length s' + 1 \<le> n \<Longrightarrow> skip_elements (Suc n) s' = skip_elements n s'"
    and IHm: "\<And>s'. 2 * length s' + 1 \<le> n \<Longrightarrow> skip_members (Suc n) s' = skip_members n s'"
    using Suc.IH by blast+
  have 1: "skip_value (Suc (Suc n)) s = skip_value (Suc n) s" if "2 * length s \<le> Suc n" for s
    using that IHe IHm by (rule skip_value_fuel_step)
  have 2: "skip_elements (Suc (Suc n)) s = skip_elements (Suc n) s"
    if "2 * length s + 1 \<le> Suc n" for s
    using that IHv IHe by (rule skip_elements_fuel_step)
  have 3: "skip_members (Suc (Suc n)) s = skip_members (Suc n) s"
    if "2 * length s + 1 \<le> Suc n" for s
    using that IHv IHm by (rule skip_members_fuel_step)
  from 1 2 3 show ?case by blast
qed

lemma skip_value_fuel: "2 * length s \<le> n \<Longrightarrow> n \<le> m \<Longrightarrow> skip_value m s = skip_value n s"
proof (induction m)
  case 0
  then show ?case by simp
next
  case (Suc m)
  show ?case
  proof (cases "n = Suc m")
    case True
    then show ?thesis by simp
  next
    case False
    with Suc.prems have "n \<le> m" by simp
    moreover from this Suc.prems(1) have "2 * length s \<le> m" by simp
    ultimately show ?thesis using Suc.IH Suc.prems(1) skip_fuel_step [of m] by simp
  qed
qed

lemma skip_mono_step:
  "(\<forall>s r. skip_value n s = Some r \<longrightarrow> skip_value (Suc n) s = Some r)
   \<and> (\<forall>s r. skip_elements n s = Some r \<longrightarrow> skip_elements (Suc n) s = Some r)
   \<and> (\<forall>s r. skip_members n s = Some r \<longrightarrow> skip_members (Suc n) s = Some r)"
proof (induction n)
  case 0
  then show ?case by simp
next
  case (Suc n)
  have IHv: "\<And>s r. skip_value n s = Some r \<Longrightarrow> skip_value (Suc n) s = Some r"
    and IHe: "\<And>s r. skip_elements n s = Some r \<Longrightarrow> skip_elements (Suc n) s = Some r"
    and IHm: "\<And>s r. skip_members n s = Some r \<Longrightarrow> skip_members (Suc n) s = Some r"
    using Suc.IH by blast+
  have 1: "skip_value (Suc (Suc n)) s = Some r" if "skip_value (Suc n) s = Some r" for s r
    using that
  proof (cases rule: skip_value_SucE)
    case (object r0 d r1)
    from IHm [OF object(4)] object(1-3) show ?thesis
      by (simp del: skip_members.simps(2))
  next
    case (array r0 d r1)
    from IHe [OF array(4)] array(1-3) show ?thesis
      by (simp del: skip_elements.simps(2))
  next
    case (literal c r0)
    then show ?thesis by simp
  qed simp_all
  have 2: "skip_elements (Suc (Suc n)) s = Some r" if "skip_elements (Suc n) s = Some r" for s r
    using that
  proof (cases rule: skip_elements_SucE)
    case (more r1 r2)
    from IHv [OF more(1)] IHe [OF more(3)] more(2) show ?thesis
      by (simp del: skip_value.simps(2) skip_elements.simps(2)
               add: skip_elements.simps(2) [of "Suc n"])
  next
    case (closing r1)
    from IHv [OF closing(1)] closing(2) show ?thesis
      by (simp del: skip_value.simps(2) skip_elements.simps(2)
               add: skip_elements.simps(2) [of "Suc n"])
  qed
  have 3: "skip_members (Suc (Suc n)) s = Some r" if "skip_members (Suc n) s = Some r" for s r
    using that
  proof (cases rule: skip_members_SucE)
    case (more r0 r1 r2 r3 r4)
    from IHv [OF more(4)] IHm [OF more(6)] more(1,2,3,5) show ?thesis
      by (simp del: skip_value.simps(2) skip_members.simps(2)
               add: skip_members.simps(2) [of "Suc n"])
  next
    case (closing r0 r1 r2 r3)
    from IHv [OF closing(4)] closing(1,2,3,5) show ?thesis
      by (simp del: skip_value.simps(2) skip_members.simps(2)
               add: skip_members.simps(2) [of "Suc n"])
  qed
  from 1 2 3 show ?case by auto
qed

lemma skip_value_mono: "skip_value n s = Some r \<Longrightarrow> n \<le> m \<Longrightarrow> skip_value m s = Some r"
proof (induction m)
  case 0
  then show ?case by simp
next
  case (Suc m)
  show ?case
  proof (cases "n = Suc m")
    case True
    with Suc.prems show ?thesis by simp
  next
    case False
    with Suc.prems have "skip_value m s = Some r" by (intro Suc.IH) simp_all
    then show ?thesis using skip_mono_step [of m] by blast
  qed
qed

lemma JSON_syntax_any_fuel:
  assumes "skip_value n s = Some r" and "skip_ws r = []"
  shows "JSON_syntax s"
proof -
  let ?b = "2 * length s + 2"
  have "skip_value ?b s = Some r"
  proof (cases "n \<le> ?b")
    case True
    with assms(1) show ?thesis by (rule skip_value_mono)
  next
    case False
    then have "skip_value n s = skip_value ?b s" by (intro skip_value_fuel) simp_all
    with assms(1) show ?thesis by simp
  qed
  with assms(2) show ?thesis by (simp add: JSON_syntax_def)
qed

lemma JSON_syntax_iff:
  "JSON_syntax s \<longleftrightarrow> (\<exists>n r. skip_value n s = Some r \<and> skip_ws r = [])"
proof
  assume a: "JSON_syntax s"
  show "\<exists>n r. skip_value n s = Some r \<and> skip_ws r = []"
  proof (cases "skip_value (2 * length s + 2) s")
    case None
    with a show ?thesis by (simp only: JSON_syntax_def option.case)
  next
    case (Some r)
    with a have "skip_ws r = []" by (simp only: JSON_syntax_def option.case)
    with Some show ?thesis by blast
  qed
next
  assume "\<exists>n r. skip_value n s = Some r \<and> skip_ws r = []"
  then show "JSON_syntax s" using JSON_syntax_any_fuel by blast
qed

lemma skip_parsed:
  "(\<forall>s v r. parse_value n s = Some (v, r) \<longrightarrow> skip_value n s = Some r)
   \<and> (\<forall>acc s v r. parse_elements n acc s = Some (v, r) \<longrightarrow> skip_elements n s = Some r)
   \<and> (\<forall>acc s v r. parse_members n acc s = Some (v, r) \<longrightarrow> skip_members n s = Some r)"
proof (induction n)
  case 0
  then show ?case by simp
next
  case (Suc n)
  have IHv: "\<And>s v r. parse_value n s = Some (v, r) \<Longrightarrow> skip_value n s = Some r"
    and IHe: "\<And>acc s v r. parse_elements n acc s = Some (v, r) \<Longrightarrow> skip_elements n s = Some r"
    and IHm: "\<And>acc s v r. parse_members n acc s = Some (v, r) \<Longrightarrow> skip_members n s = Some r"
    using Suc.IH by blast+
  have 1: "skip_value (Suc n) s = Some r" if "parse_value (Suc n) s = Some (v, r)" for s v r
    using that
  proof (cases rule: parse_value_SucE)
    case (object r0 d r1)
    from IHm [OF object(4)] object(1-3) show ?thesis by simp
  next
    case (array r0 d r1)
    from IHe [OF array(4)] array(1-3) show ?thesis by simp
  next
    case (string r0 t)
    from skip_string_body_parsed [OF string(2)] string(1) show ?thesis by simp
  next
    case (literal c r0)
    from skip_literal_parsed [OF literal(5)] literal(1-4) show ?thesis by simp
  qed simp_all
  have 2: "skip_elements (Suc n) s = Some r" if "parse_elements (Suc n) acc s = Some (v, r)"
    for acc s v r
    using that
  proof (cases rule: parse_elements_SucE)
    case (more x r1 r2)
    from IHv [OF more(1)] IHe [OF more(3)] more(2) show ?thesis by simp
  next
    case (closing x r1)
    from IHv [OF closing(1)] closing(2) show ?thesis by simp
  qed
  have 3: "skip_members (Suc n) s = Some r" if "parse_members (Suc n) acc s = Some (v, r)"
    for acc s v r
    using that
  proof (cases rule: parse_members_SucE)
    case (more r0 k r1 r2 x r3 r4)
    from skip_string_body_parsed [OF more(2)] IHv [OF more(4)] IHm [OF more(6)] more(1,3,5)
    show ?thesis by simp
  next
    case (closing r0 k r1 r2 x r3)
    from skip_string_body_parsed [OF closing(2)] IHv [OF closing(4)] closing(1,3,5)
    show ?thesis by simp
  qed
  from 1 2 3 show ?case by blast
qed

lemma JSON_parse_syntax: "JSON_parse s = Some v \<Longrightarrow> JSON_syntax s"
proof -
  assume "JSON_parse s = Some v"
  then obtain n r where "parse_value n s = Some (v, r)" "skip_ws r = []"
    unfolding JSON_parse_iff by blast
  moreover from this(1) have "skip_value n s = Some r" using skip_parsed [of n] by blast
  ultimately show ?thesis by (intro JSON_syntax_any_fuel)
qed

section \<open>The record a stored text denotes\<close>

lemma obj_get_sort_key: "distinct (map fst L) \<Longrightarrow> obj_get (sort_key fst L) f = obj_get L f"
proof -
  assume d: "distinct (map fst L)"
  then have "distinct (map fst (sort_key fst L))" by (simp add: distinct_sort_key_fst)
  then have "map_of (sort_key fst L) = map_of L"
    using d map_of_inject_set [of "sort_key fst L" L] by simp
  then show ?thesis by (simp add: obj_get_def)
qed

lemma obj_get_map_sorted:
  "obj_get (map (\<lambda>kv. (fst kv, sortKeysRecursive (snd kv))) kvs) f = sortKeysRecursive (obj_get kvs f)"
  by (induction kvs) (auto simp: obj_get_def)

lemma obj_get_filter_defined:
  "distinct (map fst L) \<Longrightarrow> obj_get (filter (\<lambda>kv. snd kv \<noteq> JUndefined) L) f = obj_get L f"
proof (induction L)
  case Nil
  then show ?case by simp
next
  case (Cons p L)
  obtain k v where p: "p = (k, v)" by (cases p)
  from Cons.prems p have k: "k \<notin> fst ` set L" and d: "distinct (map fst L)" by simp_all
  from k have "map_of L k = None" by (simp add: map_of_eq_None_iff)
  then have "obj_get L k = JUndefined" by (simp add: obj_get_def)
  then show ?case using Cons.IH [OF d] p by (auto simp: obj_get_def)
qed

lemma canonical_decode:
  assumes "distinct (map fst kvs)" and "\<forall>kv \<in> set kvs. snd kv = JUndefined \<or> plain (snd kv)"
  shows "\<exists>t D. stringify (sortKeysRecursive (JObj kvs)) = Some t \<and> t \<noteq> []
           \<and> JSON_parse t = Some (JObj D)
           \<and> (\<forall>f. obj_get D f = sortKeysRecursive (obj_get kvs f))"
proof -
  let ?h = "\<lambda>kv. (fst kv, sortKeysRecursive (snd kv))"
  let ?L = "sort_key fst (map ?h kvs)"
  let ?F = "filter (\<lambda>kv. snd kv \<noteq> JUndefined) ?L"
  have wf: "well_formed (JObj kvs)"
    using assms plain_well_formed by auto
  have dL: "distinct (map fst (map ?h kvs))" using assms(1) by (simp add: comp_def)
  have "json_of (snd p) = snd p" if "p \<in> set ?F" for p
  proof -
    from that obtain q where q: "q \<in> set kvs" "p = ?h q" "sortKeysRecursive (snd q) \<noteq> JUndefined"
      by auto
    then have "snd q \<noteq> JUndefined" by auto
    then have "plain (snd q)" using assms(2) q(1) by blast
    then show ?thesis using q(2) by (simp add: json_of_sorted)
  qed
  then have "map (\<lambda>kv. (fst kv, json_of (snd kv))) ?F = ?F"
    by (intro map_idI) (simp add: prod_eq_iff)
  moreover have "sort_key fst ?L = ?L" by (simp add: sort_key_id_if_sorted)
  ultimately have j: "json_of (sortKeysRecursive (JObj kvs)) = JObj ?F"
    by (simp del: sort_key_simps)
  obtain t where t: "stringify (sortKeysRecursive (JObj kvs)) = Some t"
      "JSON_parse t = Some (json_of (sortKeysRecursive (JObj kvs)))"
    using canonical_roundtrip [OF wf] by blast
  have "obj_get ?F f = sortKeysRecursive (obj_get kvs f)" for f
  proof -
    have "distinct (map fst ?L)" using dL by (simp only: distinct_sort_key_fst)
    then have "obj_get ?F f = obj_get ?L f" by (rule obj_get_filter_defined)
    also have "\<dots> = obj_get (map ?h kvs) f" using dL by (rule obj_get_sort_key)
    also have "\<dots> = sortKeysRecursive (obj_get kvs f)" by (rule obj_get_map_sorted)
    finally show ?thesis .
  qed
  moreover have "t \<noteq> []" using t(1) by (rule canonical_obj_nonempty)
  ultimately show ?thesis using t j by auto
qed

lemma obj_get_obj_set: "obj_get (obj_set kvs k v) f = (if f = k then v else obj_get kvs f)"
  by (induction kvs) (auto simp: obj_get_def)

lemma sorted_fields_fixed:
  assumes "sortKeysRecursive (JObj kvs) = JObj kvs" and "distinct (map fst kvs)"
  shows "sortKeysRecursive (obj_get kvs f) = obj_get kvs f"
proof -
  let ?h = "\<lambda>kv. (fst kv, sortKeysRecursive (snd kv))"
  from assms(1) have eq: "sort_key fst (map ?h kvs) = kvs" by simp
  have "distinct (map fst (map ?h kvs))" using assms(2) by (simp add: comp_def)
  then have "obj_get (sort_key fst (map ?h kvs)) f = obj_get (map ?h kvs) f"
    by (rule obj_get_sort_key)
  then show ?thesis unfolding eq by (simp only: obj_get_map_sorted)
qed

lemma obj_get_plain: "plain (JObj kvs) \<Longrightarrow> obj_get kvs f = JUndefined \<or> plain (obj_get kvs f)"
  by (induction kvs) (auto simp: obj_get_def)

lemma quote_not_number: "quote v @ x \<noteq> number_to_string n @ y"
proof -
  obtain c t where ct: "number_to_string n = c # t" "is_digit c \<or> c = CHR ''-''"
    using number_to_string_hd by blast
  then have "c \<noteq> CHR 0x22" by (auto simp: is_digit_def less_eq_char_def)
  then show ?thesis using ct(1) by (simp add: quote_def)
qed

lemma JSON_stringify_None: "JSON_stringify v = None \<longleftrightarrow> v = JUndefined"
  by (cases v) simp_all

lemma parse_record_value: "JSON_parse t = Some r \<Longrightarrow> parse_record t = Inr r"
  by (simp add: parse_record_def)

lemma parse_record_raw: "\<not> JSON_syntax t \<Longrightarrow> parse_record t = Inr (JStr t)"
  using JSON_parse_syntax [of t]
  by (cases "JSON_parse t") (auto simp: parse_record_def JSON_parse_error_def)

lemma parse_record_beyond:
  "JSON_syntax t \<Longrightarrow> JSON_parse t = None \<Longrightarrow> parse_record t = Inl Unmodelled"
  by (simp add: parse_record_def JSON_parse_error_def)

lemma parse_record_cases:
  "parse_record t = Inl Unmodelled \<or> (\<exists>r. parse_record t = Inr r \<and> r \<noteq> JUndefined)"
proof (cases "JSON_parse t")
  case None
  then show ?thesis by (simp add: parse_record_def JSON_parse_error_def)
next
  case (Some r)
  then have "plain r" by (rule JSON_parse_plain)
  then have "r \<noteq> JUndefined" by auto
  with Some show ?thesis by (simp add: parse_record_def)
qed

lemma modelled_marked:
  "Inl Unmodelled \<in> set xs \<Longrightarrow> \<forall>x \<in> set xs. x = Inl Unmodelled \<or> (\<exists>r. x = Inr r)
     \<Longrightarrow> modelled xs = Inl Unmodelled"
  by (induction xs) (auto split: sum.splits)

lemma modelled_records:
  "\<forall>x \<in> set xs. \<exists>r. x = Inr r \<Longrightarrow> modelled xs = Inr (map projr xs)"
  by (induction xs) (auto split: sum.splits)

lemma GetAllAssets_text:
  "GetAllAssets s
     = (if Inl Unmodelled \<in> set (all_results s) then Inl Unmodelled
        else Inr (Some (''['' @ join_comma (map (\<lambda>kv. the (JSON_stringify (projr (parse_record (snd kv)))))
                                              (getStateByRange s)) @ '']'')))"
proof (cases "Inl Unmodelled \<in> set (all_results s)")
  case True
  moreover have "\<forall>x \<in> set (all_results s). x = Inl Unmodelled \<or> (\<exists>r. x = Inr r)"
    using parse_record_cases by (auto simp: all_results_map)
  ultimately have "modelled (all_results s) = Inl Unmodelled" by (rule modelled_marked)
  with True show ?thesis by (simp add: GetAllAssets_def)
next
  case False
  have r: "\<exists>r. parse_record t = Inr r \<and> r \<noteq> JUndefined" if "t \<in> snd ` set (getStateByRange s)" for t
  proof -
    from that have "parse_record t \<in> set (all_results s)" by (auto simp: all_results_map)
    with False have "parse_record t \<noteq> Inl Unmodelled" by auto
    with parse_record_cases [of t] show ?thesis by blast
  qed
  then have "\<forall>x \<in> set (all_results s). \<exists>r. x = Inr r" by (auto simp: all_results_map)
  then have m: "modelled (all_results s) = Inr (map projr (all_results s))" by (rule modelled_records)
  have "(case JSON_stringify (projr (parse_record t)) of None \<Rightarrow> ''null'' | Some u \<Rightarrow> u)
          = the (JSON_stringify (projr (parse_record t)))"
    if "t \<in> snd ` set (getStateByRange s)" for t
    using r [OF that] JSON_stringify_None [of "projr (parse_record t)"]
    by (cases "JSON_stringify (projr (parse_record t))") auto
  then have "map (\<lambda>x. case JSON_stringify x of None \<Rightarrow> ''null'' | Some u \<Rightarrow> u)
                 (map projr (all_results s))
               = map (\<lambda>kv. the (JSON_stringify (projr (parse_record (snd kv))))) (getStateByRange s)"
    by (simp add: all_results_map comp_def)
  with False m show ?thesis by (simp add: GetAllAssets_def)
qed

section \<open>What the transactions write\<close>

lemma CreateAsset_new:
  \<open>\<not> AssetExists s k \<Longrightarrow>
   CreateAsset s k f sz c co v =
     (putState s k (''{"Client":'' @ quote c @ '',"Cone":'' @ quote co @ '',"Flavor":'' @ quote f
           @ '',"ID":'' @ quote k @ '',"Size":'' @ quote sz @ '',"Value":'' @ quote v @ ''}''),
      Inr (Some (''{"ID":'' @ quote k @ '',"Flavor":'' @ quote f @ '',"Size":'' @ quote sz
           @ '',"Client":'' @ quote c @ '',"Cone":'' @ quote co @ '',"Value":'' @ quote v @ ''}'')))\<close>
  unfolding CreateAsset_def Let_def canonical_created plain_created
  by (simp add: Buffer_from_def)

lemma CreateAsset_old:
  "AssetExists s k \<Longrightarrow> CreateAsset s k f sz c co v = (s, Inl (AlreadyExists k))"
  by (simp add: CreateAsset_def)

lemma UpdateAsset_written:
  "snd (UpdateAsset s k fl) = Inr u \<Longrightarrow>
   \<exists>b. b \<noteq> [] \<and> fst (UpdateAsset s k fl) = putState s k b"
  unfolding UpdateAsset_def Let_def Buffer_from_def
  by (auto split: if_splits sum.splits option.splits prod.splits
           simp del: sortKeysRecursive.simps
           dest: canonical_obj_nonempty)

lemma CreateAsset_decoded:
  assumes "\<not> AssetExists s k"
  shows "\<exists>t r. CreateAsset s k f sz c co v = (putState s k t, Inr (Some r))
           \<and> stringify (sortKeysRecursive (JObj
                 [(''ID'', JStr k), (''Flavor'', JStr f), (''Size'', JStr sz),
                  (''Client'', JStr c), (''Cone'', JStr co), (''Value'', JStr v)])) = Some t
           \<and> JSON_stringify (JObj
                 [(''ID'', JStr k), (''Flavor'', JStr f), (''Size'', JStr sz),
                  (''Client'', JStr c), (''Cone'', JStr co), (''Value'', JStr v)]) = Some r
           \<and> ReadAsset (putState s k t) k = Inr t
           \<and> JSON_parse t = Some (JObj
                 [(''Client'', JStr c), (''Cone'', JStr co), (''Flavor'', JStr f),
                  (''ID'', JStr k), (''Size'', JStr sz), (''Value'', JStr v)])
           \<and> JSON_parse r = Some (JObj
                 [(''ID'', JStr k), (''Flavor'', JStr f), (''Size'', JStr sz),
                  (''Client'', JStr c), (''Cone'', JStr co), (''Value'', JStr v)])
           \<and> r \<noteq> t"
proof -
  let ?asset = "[(''ID'', JStr k), (''Flavor'', JStr f), (''Size'', JStr sz),
                 (''Client'', JStr c), (''Cone'', JStr co), (''Value'', JStr v)]"
  let ?sorted = "[(''Client'', JStr c), (''Cone'', JStr co), (''Flavor'', JStr f),
                  (''ID'', JStr k), (''Size'', JStr sz), (''Value'', JStr v)]"
  let ?t = "print (JObj ?sorted)" and ?r = "print (JObj ?asset)"
  have t: "stringify (sortKeysRecursive (JObj ?asset)) = Some ?t"
    unfolding canonical_created by (simp add: quote_keys)
  have r: "JSON_stringify (JObj ?asset) = Some ?r"
    unfolding plain_created by (simp add: quote_keys)
  have 1: "CreateAsset s k f sz c co v = (putState s k ?t, Inr (Some ?r))"
    using assms unfolding CreateAsset_def Let_def t r by (simp add: Buffer_from_def)
  have 2: "ReadAsset (putState s k ?t) k = Inr ?t"
    by (simp add: ReadAsset_def getState_putState)
  have 3: "JSON_parse ?t = Some (JObj ?sorted)" by (rule JSON_parse_print) simp
  have 4: "JSON_parse ?r = Some (JObj ?asset)" by (rule JSON_parse_print) simp
  have 5: "?r \<noteq> ?t" by (simp add: quote_keys)
  from 1 t r 2 3 4 5 show ?thesis by blast
qed

lemma UpdateAsset_decoded:
  assumes "ReadAsset s k = Inr text" and "JSON_parse text = Some (JObj kvs)"
  shows "\<exists>text' D.
           UpdateAsset s k flavor = (putState s k text', Inr ())
         \<and> stringify (sortKeysRecursive (JObj
               [(''ID'', JStr k), (''Flavor'', JStr flavor), (''Size'', obj_get kvs ''Size''),
                (''Client'', obj_get kvs ''Client''), (''Cone'', obj_get kvs ''Cone''),
                (''Value'', obj_get kvs ''Value'')])) = Some text'
         \<and> ReadAsset (putState s k text') k = Inr text'
         \<and> JSON_parse text' = Some (JObj D)
         \<and> obj_get D ''ID'' = JStr k
         \<and> obj_get D ''Flavor'' = JStr flavor
         \<and> (\<forall>f \<in> {''Size'', ''Client'', ''Cone'', ''Value''}.
               obj_get D f = sortKeysRecursive (obj_get kvs f))
         \<and> (\<forall>f. f \<notin> {''ID'', ''Flavor'', ''Size'', ''Client'', ''Cone'', ''Value''}
               \<longrightarrow> obj_get D f = JUndefined)"
proof -
  let ?upd = "[(''ID'', JStr k), (''Flavor'', JStr flavor), (''Size'', obj_get kvs ''Size''),
               (''Client'', obj_get kvs ''Client''), (''Cone'', obj_get kvs ''Cone''),
               (''Value'', obj_get kvs ''Value'')]"
  have pl: "plain (JObj kvs)" using assms(2) by (rule JSON_parse_plain)
  have d: "distinct (map fst ?upd)" by simp
  have v: "\<forall>kv \<in> set ?upd. snd kv = JUndefined \<or> plain (snd kv)"
    using obj_get_plain [OF pl] by simp
  from canonical_decode [OF d v] obtain t D where
    t: "stringify (sortKeysRecursive (JObj ?upd)) = Some t" "t \<noteq> []"
    and D: "JSON_parse t = Some (JObj D)" "\<And>f. obj_get D f = sortKeysRecursive (obj_get ?upd f)"
    by blast
  have ex: "AssetExists s k"
    using assms(1) by (auto simp: ReadAsset_def AssetExists_def split: option.splits if_splits)
  have 1: "UpdateAsset s k flavor = (putState s k t, Inr ())"
    using assms ex t(1)
    by (simp add: UpdateAsset_def get_property_def Buffer_from_def Let_def
             del: sortKeysRecursive.simps stringify.simps)
  have 2: "ReadAsset (putState s k t) k = Inr t"
    using t(2) by (simp add: ReadAsset_def getState_putState)
  have 3: "obj_get D ''ID'' = JStr k" "obj_get D ''Flavor'' = JStr flavor"
    unfolding D(2) by (simp_all add: obj_get_def)
  have 4: "\<forall>f \<in> {''Size'', ''Client'', ''Cone'', ''Value''}.
               obj_get D f = sortKeysRecursive (obj_get kvs f)"
    by (simp add: D(2)) (simp add: obj_get_def)
  have 5: "\<forall>f. f \<notin> {''ID'', ''Flavor'', ''Size'', ''Client'', ''Cone'', ''Value''}
               \<longrightarrow> obj_get D f = JUndefined"
    by (simp add: D(2)) (simp add: obj_get_def)
  from 1 t(1) 2 D(1) 3 4 5 show ?thesis by blast
qed

lemma InitLedger_seeds:
  "snd (InitLedger s) = Inr ()
   \<and> (\<forall>a \<in> set seed_assets. \<exists>k. obj_get a ''ID'' = JStr k
         \<and> getState (fst (InitLedger s)) k
             = stringify (sortKeysRecursive (JObj (obj_set a ''docType'' (JStr ''asset'')))))"
  by (simp add: InitLedger_def seed_assets_def Let_def obj_get_def Buffer_from_canonical
        canonical_Some getState_putState del: stringify.simps sortKeysRecursive.simps)

lemma icecream1_seeded:
  \<open>getState (fst (InitLedger s)) ''icecream1''
     = Some ''{"Client":"Paola","Cone":"sugar","Flavor":"chocolate","ID":"icecream1","Size":"medium","Value":10000,"docType":"asset"}''\<close>
proof -
  have "getState (fst (InitLedger s)) ''icecream1''
          = stringify (sortKeysRecursive (JObj
              [(''ID'', JStr ''icecream1''), (''Flavor'', JStr ''chocolate''), (''Size'', JStr ''medium''),
               (''Client'', JStr ''Paola''), (''Cone'', JStr ''sugar''), (''Value'', JNum 10000),
               (''docType'', JStr ''asset'')]))"
    using InitLedger_seeds [of s]
    by (simp add: seed_assets_def obj_get_def del: stringify.simps sortKeysRecursive.simps)
  then show ?thesis by (simp add: quote_def escape_char_def seed_numbers)
qed

lemma icecream1_parsed:
  \<open>JSON_parse ''{"Client":"Paola","Cone":"sugar","Flavor":"chocolate","ID":"icecream1","Size":"medium","Value":10000,"docType":"asset"}''
     = Some (JObj [(''Client'', JStr ''Paola''), (''Cone'', JStr ''sugar''), (''Flavor'', JStr ''chocolate''),
                   (''ID'', JStr ''icecream1''), (''Size'', JStr ''medium''), (''Value'', JNum 10000),
                   (''docType'', JStr ''asset'')])\<close>
proof -
  have \<open>print (JObj [(''Client'', JStr ''Paola''), (''Cone'', JStr ''sugar''), (''Flavor'', JStr ''chocolate''),
                   (''ID'', JStr ''icecream1''), (''Size'', JStr ''medium''), (''Value'', JNum 10000),
                   (''docType'', JStr ''asset'')])
        = ''{"Client":"Paola","Cone":"sugar","Flavor":"chocolate","ID":"icecream1","Size":"medium","Value":10000,"docType":"asset"}''\<close>
    by (simp add: quote_def escape_char_def seed_numbers)
  then show ?thesis
    using JSON_parse_print [of \<open>JObj [(''Client'', JStr ''Paola''), (''Cone'', JStr ''sugar''),
                   (''Flavor'', JStr ''chocolate''), (''ID'', JStr ''icecream1''), (''Size'', JStr ''medium''),
                   (''Value'', JNum 10000), (''docType'', JStr ''asset'')]\<close>]
    by simp
qed

lemma icecream10_texts:
  \<open>print (JObj [(''Client'', JStr ''Carmen''), (''Cone'', JStr ''sugar''), (''Flavor'', JStr ''vanilla''),
                 (''ID'', JStr ''icecream10''), (''Size'', JStr ''small''), (''Value'', JStr ''6000'')])
     = ''{"Client":"Carmen","Cone":"sugar","Flavor":"vanilla","ID":"icecream10","Size":"small","Value":"6000"}''\<close>
  \<open>print (JObj [(''ID'', JStr ''icecream10''), (''Flavor'', JStr ''vanilla''), (''Size'', JStr ''small''),
                 (''Client'', JStr ''Carmen''), (''Cone'', JStr ''sugar''), (''Value'', JStr ''6000'')])
     = ''{"ID":"icecream10","Flavor":"vanilla","Size":"small","Client":"Carmen","Cone":"sugar","Value":"6000"}''\<close>
  by (simp_all add: quote_def escape_char_def)

lemma icecream10_created:
  \<open>\<not> AssetExists s ''icecream10'' \<Longrightarrow>
   CreateAsset s ''icecream10'' ''vanilla'' ''small'' ''Carmen'' ''sugar'' ''6000''
     = (putState s ''icecream10''
          ''{"Client":"Carmen","Cone":"sugar","Flavor":"vanilla","ID":"icecream10","Size":"small","Value":"6000"}'',
        Inr (Some ''{"ID":"icecream10","Flavor":"vanilla","Size":"small","Client":"Carmen","Cone":"sugar","Value":"6000"}''))\<close>
  by (simp add: CreateAsset_new quote_def escape_char_def)

lemma icecream10_fresh: "\<not> AssetExists (fst (InitLedger [])) ''icecream10''"
  by (simp add: AssetExists_def InitLedger_def seed_assets_def Let_def obj_get_def
        Buffer_from_canonical getState_putState del: stringify.simps sortKeysRecursive.simps)
     (simp add: getState_def)

section \<open>The claims\<close>

text \<open>
  Claim C1 (the canonical encoding is deterministic). The persisted encoding, the
  recursive key sort followed by the deterministic serialisation, depends on the field
  names and values only: two field lists with the same keys, each once, and the same value
  under each key have the same encoding, whatever the insertion order; and so have two
  values that are logically the same record at every nesting level.
\<close>

theorem canonical_encoding_deterministic:
  "(distinct (map fst xs) \<and> distinct (map fst ys) \<and> map_of xs = map_of ys
      \<longrightarrow> stringify (sortKeysRecursive (JObj xs)) = stringify (sortKeysRecursive (JObj ys)))
   \<and> (same_value a b
      \<longrightarrow> stringify (sortKeysRecursive a) = stringify (sortKeysRecursive b))"
proof (intro conjI impI)
  assume h: "distinct (map fst xs) \<and> distinct (map fst ys) \<and> map_of xs = map_of ys"
  let ?g = "\<lambda>kv. (fst kv, sortKeysRecursive (snd kv))"
  from h have "set xs = set ys" using map_of_inject_set [of xs ys] by blast
  then have "set (map ?g xs) = set (map ?g ys)" by simp
  moreover have "distinct (map fst (map ?g xs))" "distinct (map fst (map ?g ys))"
    using h by (simp_all add: comp_def)
  ultimately have "sort_key fst (map ?g xs) = sort_key fst (map ?g ys)"
    by (intro sort_key_fst_unique)
  then have "sortKeysRecursive (JObj xs) = sortKeysRecursive (JObj ys)" by simp
  then show "stringify (sortKeysRecursive (JObj xs)) = stringify (sortKeysRecursive (JObj ys))"
    by (rule arg_cong)
next
  assume "same_value a b"
  then have "sortKeysRecursive a = sortKeysRecursive b" by (rule same_value_sorted)
  then show "stringify (sortKeysRecursive a) = stringify (sortKeysRecursive b)"
    by (rule arg_cong)
qed

theorem canonical_encoding_deterministic_witness:
  \<open>map_of [(''ID'', JStr ''a''), (''Flavor'', JStr ''kiwi'')]
     = map_of [(''Flavor'', JStr ''kiwi''), (''ID'', JStr ''a'')]
   \<and> stringify (sortKeysRecursive (JObj [(''ID'', JStr ''a''), (''Flavor'', JStr ''kiwi'')]))
       = Some ''{"Flavor":"kiwi","ID":"a"}''
   \<and> stringify (sortKeysRecursive (JObj [(''Flavor'', JStr ''kiwi''), (''ID'', JStr ''a'')]))
       = Some ''{"Flavor":"kiwi","ID":"a"}''
   \<and> same_value (JObj [(''b'', JBool True), (''a'', JObj [(''y'', JNull), (''x'', JStr ''s'')])])
                 (JObj [(''a'', JObj [(''x'', JStr ''s''), (''y'', JNull)]), (''b'', JBool True)])
   \<and> stringify (sortKeysRecursive
         (JObj [(''b'', JBool True), (''a'', JObj [(''y'', JNull), (''x'', JStr ''s'')])]))
       = Some ''{"a":{"x":"s","y":null},"b":true}''
   \<and> stringify (sortKeysRecursive
         (JObj [(''a'', JObj [(''x'', JStr ''s''), (''y'', JNull)]), (''b'', JBool True)]))
       = Some ''{"a":{"x":"s","y":null},"b":true}''\<close>
proof -
  have m: "map_of [(''ID'', JStr ''a''), (''Flavor'', JStr ''kiwi'')]
             = map_of [(''Flavor'', JStr ''kiwi''), (''ID'', JStr ''a'')]"
    by (rule ext) simp
  have d: "distinct (map fst [(''ID'', JStr ''a''), (''Flavor'', JStr ''kiwi'')])"
      "distinct (map fst [(''Flavor'', JStr ''kiwi''), (''ID'', JStr ''a'')])"
    by simp_all
  have sv: "same_value (JObj [(''b'', JBool True), (''a'', JObj [(''y'', JNull), (''x'', JStr ''s'')])])
                 (JObj [(''a'', JObj [(''x'', JStr ''s''), (''y'', JNull)]), (''b'', JBool True)])"
    by (simp add: obj_get_def insert_commute)
  have e1: \<open>stringify (sortKeysRecursive (JObj [(''ID'', JStr ''a''), (''Flavor'', JStr ''kiwi'')]))
       = Some ''{"Flavor":"kiwi","ID":"a"}''\<close>
    by code_simp
  have e2: \<open>stringify (sortKeysRecursive
         (JObj [(''b'', JBool True), (''a'', JObj [(''y'', JNull), (''x'', JStr ''s'')])]))
       = Some ''{"a":{"x":"s","y":null},"b":true}''\<close>
    by code_simp
  show ?thesis
    using m d sv
      canonical_encoding_deterministic
        [of "[(''ID'', JStr ''a''), (''Flavor'', JStr ''kiwi'')]"
            "[(''Flavor'', JStr ''kiwi''), (''ID'', JStr ''a'')]"
            "JObj [(''b'', JBool True), (''a'', JObj [(''y'', JNull), (''x'', JStr ''s'')])]"
            "JObj [(''a'', JObj [(''x'', JStr ''s''), (''y'', JNull)]), (''b'', JBool True)]"]
    unfolding e1 e2 by (metis e1 e2)
qed

text \<open>
  Claim C2 (create and read round trip, with \<^verbatim>\<open>docType\<close>), evaluated on the seeded
  ledger: \<^verbatim>\<open>CreateAsset\<close> of \<^verbatim>\<open>icecream10\<close> stores and \<^verbatim>\<open>ReadAsset\<close> returns a record
  of the six fields ID, Flavor, Size, Client, Cone and Value. It has no \<^verbatim>\<open>docType\<close>: the
  canonical encoding of the record with the tag is another text, and the records that
  \<^verbatim>\<open>InitLedger\<close> seeds carry the tag.
\<close>

theorem create_omits_docType:
  \<open>CreateAsset (fst (InitLedger [])) ''icecream10'' ''vanilla'' ''small'' ''Carmen'' ''sugar'' ''6000''
     = (putState (fst (InitLedger [])) ''icecream10''
          ''{"Client":"Carmen","Cone":"sugar","Flavor":"vanilla","ID":"icecream10","Size":"small","Value":"6000"}'',
        Inr (Some ''{"ID":"icecream10","Flavor":"vanilla","Size":"small","Client":"Carmen","Cone":"sugar","Value":"6000"}''))
   \<and> ReadAsset (putState (fst (InitLedger [])) ''icecream10''
          ''{"Client":"Carmen","Cone":"sugar","Flavor":"vanilla","ID":"icecream10","Size":"small","Value":"6000"}'')
        ''icecream10''
     = Inr ''{"Client":"Carmen","Cone":"sugar","Flavor":"vanilla","ID":"icecream10","Size":"small","Value":"6000"}''
   \<and> JSON_parse ''{"Client":"Carmen","Cone":"sugar","Flavor":"vanilla","ID":"icecream10","Size":"small","Value":"6000"}''
     = Some (JObj [(''Client'', JStr ''Carmen''), (''Cone'', JStr ''sugar''), (''Flavor'', JStr ''vanilla''),
                   (''ID'', JStr ''icecream10''), (''Size'', JStr ''small''), (''Value'', JStr ''6000'')])
   \<and> stringify (sortKeysRecursive (JObj
         [(''ID'', JStr ''icecream10''), (''Flavor'', JStr ''vanilla''), (''Size'', JStr ''small''),
          (''Client'', JStr ''Carmen''), (''Cone'', JStr ''sugar''), (''Value'', JStr ''6000''),
          (''docType'', JStr ''asset'')]))
     = Some ''{"Client":"Carmen","Cone":"sugar","Flavor":"vanilla","ID":"icecream10","Size":"small","Value":"6000","docType":"asset"}''
   \<and> ReadAsset (fst (InitLedger [])) ''icecream1''
     = Inr ''{"Client":"Paola","Cone":"sugar","Flavor":"chocolate","ID":"icecream1","Size":"medium","Value":10000,"docType":"asset"}''\<close>
proof -
  have 1: \<open>JSON_parse ''{"Client":"Carmen","Cone":"sugar","Flavor":"vanilla","ID":"icecream10","Size":"small","Value":"6000"}''
     = Some (JObj [(''Client'', JStr ''Carmen''), (''Cone'', JStr ''sugar''), (''Flavor'', JStr ''vanilla''),
                   (''ID'', JStr ''icecream10''), (''Size'', JStr ''small''), (''Value'', JStr ''6000'')])\<close>
    using JSON_parse_print [of \<open>JObj [(''Client'', JStr ''Carmen''), (''Cone'', JStr ''sugar''),
                   (''Flavor'', JStr ''vanilla''), (''ID'', JStr ''icecream10''), (''Size'', JStr ''small''),
                   (''Value'', JStr ''6000'')]\<close>]
    unfolding icecream10_texts by simp
  have 2: \<open>stringify (sortKeysRecursive (JObj
         [(''ID'', JStr ''icecream10''), (''Flavor'', JStr ''vanilla''), (''Size'', JStr ''small''),
          (''Client'', JStr ''Carmen''), (''Cone'', JStr ''sugar''), (''Value'', JStr ''6000''),
          (''docType'', JStr ''asset'')]))
     = Some ''{"Client":"Carmen","Cone":"sugar","Flavor":"vanilla","ID":"icecream10","Size":"small","Value":"6000","docType":"asset"}''\<close>
    by (simp add: quote_def escape_char_def)
  have 3: \<open>ReadAsset (fst (InitLedger [])) ''icecream1''
     = Inr ''{"Client":"Paola","Cone":"sugar","Flavor":"chocolate","ID":"icecream1","Size":"medium","Value":10000,"docType":"asset"}''\<close>
    by (simp add: ReadAsset_def icecream1_seeded)
  show ?thesis
    unfolding icecream10_created [OF icecream10_fresh] 1 2 3
    by (simp add: ReadAsset_def getState_putState)
qed

text \<open>
  Claim C3 (create uniqueness, no write on error). \<^verbatim>\<open>CreateAsset\<close> on an id that holds a
  live record throws \<open>AlreadyExists\<close> and returns the world state as it was. In
  particular, after a successful \<^verbatim>\<open>CreateAsset\<close> of an id a second one on the same id
  fails, and \<^verbatim>\<open>ReadAsset\<close> still gives the canonical encoding written by the first.
\<close>

theorem create_uniqueness:
  "(AssetExists s k \<longrightarrow>
      CreateAsset s k f' sz' c' co' v' = (s, Inl (AlreadyExists k)))
   \<and> (\<not> AssetExists s k \<longrightarrow>
        (\<exists>s1 r. CreateAsset s k f sz c co v = (s1, Inr r)
           \<and> CreateAsset s1 k f' sz' c' co' v' = (s1, Inl (AlreadyExists k))
           \<and> ReadAsset s1 k = Inr (the (stringify (sortKeysRecursive (JObj
                 [(''ID'', JStr k), (''Flavor'', JStr f), (''Size'', JStr sz),
                  (''Client'', JStr c), (''Cone'', JStr co), (''Value'', JStr v)]))))))"
proof (intro conjI impI)
  assume "AssetExists s k"
  then show "CreateAsset s k f' sz' c' co' v' = (s, Inl (AlreadyExists k))"
    by (rule CreateAsset_old)
next
  assume new: "\<not> AssetExists s k"
  let ?t = "the (stringify (sortKeysRecursive (JObj
                 [(''ID'', JStr k), (''Flavor'', JStr f), (''Size'', JStr sz),
                  (''Client'', JStr c), (''Cone'', JStr co), (''Value'', JStr v)])))"
  let ?s1 = "putState s k ?t"
  have t: "?t \<noteq> []" unfolding canonical_created by simp
  have 1: "CreateAsset s k f sz c co v = (?s1, Inr (JSON_stringify (JObj
                 [(''ID'', JStr k), (''Flavor'', JStr f), (''Size'', JStr sz),
                  (''Client'', JStr c), (''Cone'', JStr co), (''Value'', JStr v)])))"
    using new unfolding CreateAsset_new [OF new] canonical_created plain_created by simp
  have ex: "AssetExists ?s1 k" using t by (simp add: AssetExists_putState del: sortKeysRecursive.simps stringify.simps)
  have 2: "CreateAsset ?s1 k f' sz' c' co' v' = (?s1, Inl (AlreadyExists k))"
    using ex by (rule CreateAsset_old)
  have 3: "ReadAsset ?s1 k = Inr ?t"
    using ReadAsset_exists [OF ex] by (simp add: getState_putState del: sortKeysRecursive.simps stringify.simps)
  from 1 2 3 show "\<exists>s1 r. CreateAsset s k f sz c co v = (s1, Inr r)
           \<and> CreateAsset s1 k f' sz' c' co' v' = (s1, Inl (AlreadyExists k))
           \<and> ReadAsset s1 k = Inr ?t"
    by blast
qed

theorem create_uniqueness_witness:
  \<open>AssetExists [(''a'', ''{}'')] ''a''
   \<and> CreateAsset [(''a'', ''{}'')] ''a'' ''mint'' ''big'' ''Eve'' ''cake'' ''7''
       = ([(''a'', ''{}'')], Inl (AlreadyExists ''a''))
   \<and> \<not> AssetExists [] ''a''
   \<and> (\<exists>s1 r. CreateAsset [] ''a'' ''kiwi'' ''small'' ''Bob'' ''cup'' ''5'' = (s1, Inr r)
         \<and> CreateAsset s1 ''a'' ''mint'' ''big'' ''Eve'' ''cake'' ''7'' = (s1, Inl (AlreadyExists ''a''))
         \<and> ReadAsset s1 ''a''
             = Inr ''{"Client":"Bob","Cone":"cup","Flavor":"kiwi","ID":"a","Size":"small","Value":"5"}'')\<close>
proof -
  have a: "AssetExists [(''a'', ''{}'')] ''a''" by (simp add: AssetExists_def getState_def)
  have b: "\<not> AssetExists [] ''a''" by (simp add: AssetExists_def getState_def)
  have t: \<open>the (stringify (sortKeysRecursive (JObj
                 [(''ID'', JStr ''a''), (''Flavor'', JStr ''kiwi''), (''Size'', JStr ''small''),
                  (''Client'', JStr ''Bob''), (''Cone'', JStr ''cup''), (''Value'', JStr ''5'')])))
           = ''{"Client":"Bob","Cone":"cup","Flavor":"kiwi","ID":"a","Size":"small","Value":"5"}''\<close>
    by (simp add: quote_def escape_char_def)
  show ?thesis
    using a b
      create_uniqueness [of "[(''a'', ''{}'')]" "''a''" "''mint''" "''big''" "''Eve''" "''cake''" "''7''"]
      create_uniqueness [of "[]" "''a''" "''mint''" "''big''" "''Eve''" "''cake''" "''7''"
                            "''kiwi''" "''small''" "''Bob''" "''cup''" "''5''"]
    unfolding t by blast
qed

text \<open>
  Claim C4 (transfer semantics). Where the value stored under the id is the text of a JSON
  object, \<^verbatim>\<open>TransferAsset\<close> returns the value the \<^verbatim>\<open>Client\<close> field had before the call
  and writes, under the same id and nowhere else, the canonical encoding of the object with
  \<^verbatim>\<open>Client\<close> set to the new owner. A following \<^verbatim>\<open>ReadAsset\<close> gives that text; parsed,
  its \<^verbatim>\<open>Client\<close> is the new owner and every other field has the value it had, with the
  keys of nested objects in sorted order (so the very same value when the stored text was
  canonical).
\<close>

theorem transfer_semantics:
  assumes "ReadAsset s k = Inr text" and "JSON_parse text = Some (JObj kvs)"
  shows "\<exists>text' D.
           TransferAsset s k newOwner = (putState s k text', Inr (obj_get kvs ''Client''))
         \<and> stringify (sortKeysRecursive (JObj (obj_set kvs ''Client'' (JStr newOwner)))) = Some text'
         \<and> ReadAsset (putState s k text') k = Inr text'
         \<and> JSON_parse text' = Some (JObj D)
         \<and> obj_get D ''Client'' = JStr newOwner
         \<and> (\<forall>f. f \<noteq> ''Client'' \<longrightarrow> obj_get D f = sortKeysRecursive (obj_get kvs f))
         \<and> (sortKeysRecursive (JObj kvs) = JObj kvs
              \<longrightarrow> (\<forall>f. f \<noteq> ''Client'' \<longrightarrow> obj_get D f = obj_get kvs f))
         \<and> (\<forall>k'. k' \<noteq> k \<longrightarrow> getState (putState s k text') k' = getState s k')"
proof -
  let ?kvs' = "obj_set kvs ''Client'' (JStr newOwner)"
  have pl: "plain (JObj kvs)" using assms(2) by (rule JSON_parse_plain)
  then have "plain (JObj ?kvs')" by (intro plain_obj_set) simp_all
  then have d': "distinct (map fst ?kvs')" and v': "\<forall>kv \<in> set ?kvs'. snd kv = JUndefined \<or> plain (snd kv)"
    by simp_all
  from canonical_decode [OF d' v'] obtain t D where
    t: "stringify (sortKeysRecursive (JObj ?kvs')) = Some t" "t \<noteq> []"
    and D: "JSON_parse t = Some (JObj D)" "\<And>f. obj_get D f = sortKeysRecursive (obj_get ?kvs' f)"
    by blast
  have 1: "TransferAsset s k newOwner = (putState s k t, Inr (obj_get kvs ''Client''))"
    using assms t(1)
    by (simp add: TransferAsset_def get_property_def set_property_def Buffer_from_def
             del: sortKeysRecursive.simps stringify.simps)
  have 2: "ReadAsset (putState s k t) k = Inr t"
    using t(2) by (simp add: ReadAsset_def getState_putState)
  have 3: "obj_get D ''Client'' = JStr newOwner" by (simp add: D(2) obj_get_obj_set)
  have 4: "\<forall>f. f \<noteq> ''Client'' \<longrightarrow> obj_get D f = sortKeysRecursive (obj_get kvs f)"
    by (simp add: D(2) obj_get_obj_set)
  have 5: "\<forall>f. f \<noteq> ''Client'' \<longrightarrow> obj_get D f = obj_get kvs f"
    if "sortKeysRecursive (JObj kvs) = JObj kvs"
    using 4 sorted_fields_fixed [OF that] pl by simp
  have 6: "\<forall>k'. k' \<noteq> k \<longrightarrow> getState (putState s k t) k' = getState s k'"
    by (simp add: getState_putState)
  from 1 t(1) 2 D(1) 3 4 5 6 show ?thesis by blast
qed

theorem transfer_semantics_witness:
  \<open>ReadAsset (fst (InitLedger [])) ''icecream1''
     = Inr ''{"Client":"Paola","Cone":"sugar","Flavor":"chocolate","ID":"icecream1","Size":"medium","Value":10000,"docType":"asset"}''
   \<and> TransferAsset (fst (InitLedger [])) ''icecream1'' ''Maria''
     = (putState (fst (InitLedger [])) ''icecream1''
          ''{"Client":"Maria","Cone":"sugar","Flavor":"chocolate","ID":"icecream1","Size":"medium","Value":10000,"docType":"asset"}'',
        Inr (JStr ''Paola''))
   \<and> ReadAsset (putState (fst (InitLedger [])) ''icecream1''
          ''{"Client":"Maria","Cone":"sugar","Flavor":"chocolate","ID":"icecream1","Size":"medium","Value":10000,"docType":"asset"}'')
        ''icecream1''
     = Inr ''{"Client":"Maria","Cone":"sugar","Flavor":"chocolate","ID":"icecream1","Size":"medium","Value":10000,"docType":"asset"}''\<close>
proof -
  let ?D = "[(''Client'', JStr ''Paola''), (''Cone'', JStr ''sugar''), (''Flavor'', JStr ''chocolate''),
             (''ID'', JStr ''icecream1''), (''Size'', JStr ''medium''), (''Value'', JNum 10000),
             (''docType'', JStr ''asset'')]"
  have r: \<open>ReadAsset (fst (InitLedger [])) ''icecream1''
     = Inr ''{"Client":"Paola","Cone":"sugar","Flavor":"chocolate","ID":"icecream1","Size":"medium","Value":10000,"docType":"asset"}''\<close>
    by (simp add: ReadAsset_def icecream1_seeded)
  have e: \<open>stringify (sortKeysRecursive (JObj (obj_set ?D ''Client'' (JStr ''Maria''))))
     = Some ''{"Client":"Maria","Cone":"sugar","Flavor":"chocolate","ID":"icecream1","Size":"medium","Value":10000,"docType":"asset"}''\<close>
    by (simp add: quote_def escape_char_def seed_numbers)
  have o: "obj_get ?D ''Client'' = JStr ''Paola''" by (simp add: obj_get_def)
  show ?thesis
    using transfer_semantics [OF r icecream1_parsed, of "''Maria''"] r
    unfolding e o by auto
qed

text \<open>
  Claim C5 (update changes the flavor only), evaluated on the seeded ledger:
  \<^verbatim>\<open>UpdateAsset\<close> of \<^verbatim>\<open>icecream1\<close> changes \<^verbatim>\<open>Flavor\<close>, keeps ID, Size, Client, Cone
  and Value, and drops the \<^verbatim>\<open>docType\<close> that the seeded record had.
\<close>

theorem update_drops_docType:
  \<open>ReadAsset (fst (InitLedger [])) ''icecream1''
     = Inr ''{"Client":"Paola","Cone":"sugar","Flavor":"chocolate","ID":"icecream1","Size":"medium","Value":10000,"docType":"asset"}''
   \<and> UpdateAsset (fst (InitLedger [])) ''icecream1'' ''vanilla''
     = (putState (fst (InitLedger [])) ''icecream1''
          ''{"Client":"Paola","Cone":"sugar","Flavor":"vanilla","ID":"icecream1","Size":"medium","Value":10000}'',
        Inr ())
   \<and> ReadAsset (putState (fst (InitLedger [])) ''icecream1''
          ''{"Client":"Paola","Cone":"sugar","Flavor":"vanilla","ID":"icecream1","Size":"medium","Value":10000}'')
        ''icecream1''
     = Inr ''{"Client":"Paola","Cone":"sugar","Flavor":"vanilla","ID":"icecream1","Size":"medium","Value":10000}''\<close>
proof -
  let ?D = "[(''Client'', JStr ''Paola''), (''Cone'', JStr ''sugar''), (''Flavor'', JStr ''chocolate''),
             (''ID'', JStr ''icecream1''), (''Size'', JStr ''medium''), (''Value'', JNum 10000),
             (''docType'', JStr ''asset'')]"
  have r: \<open>ReadAsset (fst (InitLedger [])) ''icecream1''
     = Inr ''{"Client":"Paola","Cone":"sugar","Flavor":"chocolate","ID":"icecream1","Size":"medium","Value":10000,"docType":"asset"}''\<close>
    by (simp add: ReadAsset_def icecream1_seeded)
  have e: \<open>stringify (sortKeysRecursive (JObj
               [(''ID'', JStr ''icecream1''), (''Flavor'', JStr ''vanilla''), (''Size'', obj_get ?D ''Size''),
                (''Client'', obj_get ?D ''Client''), (''Cone'', obj_get ?D ''Cone''),
                (''Value'', obj_get ?D ''Value'')]))
     = Some ''{"Client":"Paola","Cone":"sugar","Flavor":"vanilla","ID":"icecream1","Size":"medium","Value":10000}''\<close>
    by (simp add: obj_get_def quote_def escape_char_def seed_numbers)
  show ?thesis
    using UpdateAsset_decoded [OF r icecream1_parsed, of "''vanilla''"] r
    unfolding e by auto
qed

text \<open>
  Claim C6 (scan ordering and the effect of a deletion). The range scan behind
  \<^verbatim>\<open>GetAllAssets\<close> visits the stored keys in strictly ascending order, each with the value
  stored under it, and the records returned are the parsed values in that order; the text
  returned lists them in that order, where all of them are within the model. After
  \<^verbatim>\<open>DeleteAsset\<close> of a stored key the scan yields the same sequence without the entry of
  that key, so one record fewer.
\<close>

theorem scan_order_and_delete:
  "sorted_wrt (<) (map fst (getStateByRange s))
   \<and> map_of (getStateByRange s) = getState s
   \<and> all_results s = map (\<lambda>kv. parse_record (snd kv)) (getStateByRange s)
   \<and> GetAllAssets s
       = (if Inl Unmodelled \<in> set (all_results s) then Inl Unmodelled
          else Inr (Some (''['' @ join_comma (map (\<lambda>kv. the (JSON_stringify (projr (parse_record (snd kv)))))
                                                (getStateByRange s)) @ '']'')))
   \<and> (AssetExists s k \<longrightarrow>
         DeleteAsset s k = (deleteState s k, Inr ())
         \<and> getStateByRange (deleteState s k) = filter (\<lambda>kv. fst kv \<noteq> k) (getStateByRange s)
         \<and> all_results (deleteState s k)
             = map (\<lambda>kv. parse_record (snd kv)) (filter (\<lambda>kv. fst kv \<noteq> k) (getStateByRange s))
         \<and> length (all_results (deleteState s k)) + 1 = length (all_results s))"
proof -
  have len: "length (all_results (deleteState s k)) + 1 = length (all_results s)"
    if ex: "AssetExists s k"
  proof -
    from ex obtain b where "getState s k = Some b" by (auto simp: AssetExists_iff)
    then have "map_of (getStateByRange s) k = Some b" by (simp add: range_map_of)
    then have "k \<in> set (map fst (getStateByRange s))"
      by (metis map_of_eq_None_iff option.distinct(1) set_map)
    moreover have "distinct (map fst (getStateByRange s))"
      using range_sorted [of s] by (simp add: strict_sorted_iff)
    ultimately have "length (filter (\<lambda>k'. k' \<noteq> k) (map fst (getStateByRange s))) + 1
                      = length (map fst (getStateByRange s))"
      by (simp only: length_filter_remove)
    then show ?thesis
      by (simp add: all_results_map range_delete filter_map comp_def)
  qed
  show ?thesis
    using len GetAllAssets_text [of s]
    by (simp add: range_sorted range_map_of all_results_map range_delete DeleteAsset_def)
qed

theorem scan_order_and_delete_witness:
  \<open>AssetExists [(''b'', ''2''), (''a'', ''1''), (''c'', ''[]'')] ''b''
   \<and> getStateByRange [(''b'', ''2''), (''a'', ''1''), (''c'', ''[]'')]
       = [(''a'', ''1''), (''b'', ''2''), (''c'', ''[]'')]
   \<and> all_results [(''b'', ''2''), (''a'', ''1''), (''c'', ''[]'')]
       = [Inr (JNum 1), Inr (JNum 2), Inr (JArr [])]
   \<and> GetAllAssets [(''b'', ''2''), (''a'', ''1''), (''c'', ''[]'')] = Inr (Some ''[1,2,[]]'')
   \<and> DeleteAsset [(''b'', ''2''), (''a'', ''1''), (''c'', ''[]'')] ''b''
       = (deleteState [(''b'', ''2''), (''a'', ''1''), (''c'', ''[]'')] ''b'', Inr ())
   \<and> all_results (deleteState [(''b'', ''2''), (''a'', ''1''), (''c'', ''[]'')] ''b'')
       = [Inr (JNum 1), Inr (JArr [])]\<close>
proof -
  have h: "AssetExists [(''b'', ''2''), (''a'', ''1''), (''c'', ''[]'')] ''b''"
    by (simp add: AssetExists_def getState_def)
  have r: "getStateByRange [(''b'', ''2''), (''a'', ''1''), (''c'', ''[]'')]
             = [(''a'', ''1''), (''b'', ''2''), (''c'', ''[]'')]"
    by code_simp
  have p: "parse_record ''1'' = Inr (JNum 1)" "parse_record ''2'' = Inr (JNum 2)"
      "parse_record ''[]'' = Inr (JArr [])"
    by code_simp+
  have n: "number_to_string 1 = ''1''" "number_to_string 2 = ''2''"
    by (simp_all add: number_to_string_def digits.simps digit_char_table)
  show ?thesis
    using h scan_order_and_delete [of "[(''b'', ''2''), (''a'', ''1''), (''c'', ''[]'')]" "''b''"]
    unfolding r by (simp add: p n)
qed

text \<open>
  Claim C7 (existence and read consistency). \<^verbatim>\<open>AssetExists\<close> is a total predicate, true
  exactly when a value of non-zero length is stored under the id. It is true after
  \<^verbatim>\<open>CreateAsset\<close> and after a successful \<^verbatim>\<open>UpdateAsset\<close> of the id, false after a
  successful \<^verbatim>\<open>DeleteAsset\<close>, false on the empty world state and wherever nothing is
  stored under the id; and \<^verbatim>\<open>ReadAsset\<close> fails, with \<open>NotFound\<close>, exactly when
  \<^verbatim>\<open>AssetExists\<close> is false.
\<close>

theorem existence_consistency:
  "(AssetExists s k \<longleftrightarrow> (\<exists>b. getState s k = Some b \<and> length b > 0))
   \<and> AssetExists (fst (CreateAsset s k f sz c co v)) k
   \<and> (\<forall>u. snd (UpdateAsset s k f) = Inr u \<longrightarrow> AssetExists (fst (UpdateAsset s k f)) k)
   \<and> (\<forall>u. snd (DeleteAsset s k) = Inr u \<longrightarrow> \<not> AssetExists (fst (DeleteAsset s k)) k)
   \<and> \<not> AssetExists [] k
   \<and> (getState s k = None \<longrightarrow> \<not> AssetExists s k)
   \<and> (ReadAsset s k = Inl (NotFound k) \<longleftrightarrow> \<not> AssetExists s k)
   \<and> ((\<exists>e. ReadAsset s k = Inl e) \<longleftrightarrow> \<not> AssetExists s k)"
proof -
  have 1: "AssetExists s k \<longleftrightarrow> (\<exists>b. getState s k = Some b \<and> length b > 0)"
    by (simp add: AssetExists_iff)
  have 2: "AssetExists (fst (CreateAsset s k f sz c co v)) k"
  proof (cases "AssetExists s k")
    case True
    then show ?thesis by (simp add: CreateAsset_old)
  next
    case False
    then show ?thesis by (simp add: CreateAsset_new AssetExists_putState)
  qed
  have 3: "\<forall>u. snd (UpdateAsset s k f) = Inr u \<longrightarrow> AssetExists (fst (UpdateAsset s k f)) k"
    using UpdateAsset_written [of s k f] by (auto simp: AssetExists_putState)
  have 4: "\<forall>u. snd (DeleteAsset s k) = Inr u \<longrightarrow> \<not> AssetExists (fst (DeleteAsset s k)) k"
    by (simp add: DeleteAsset_def AssetExists_deleteState)
  have 5: "\<not> AssetExists [] k" by (simp add: AssetExists_def getState_def)
  have 6: "getState s k = None \<longrightarrow> \<not> AssetExists s k" by (simp add: AssetExists_def)
  have 7: "ReadAsset s k = Inl (NotFound k) \<longleftrightarrow> \<not> AssetExists s k" by (rule ReadAsset_iff)
  have 8: "(\<exists>e. ReadAsset s k = Inl e) \<longleftrightarrow> \<not> AssetExists s k"
    by (auto simp: ReadAsset_def AssetExists_def split: option.splits)
  from 1 2 3 4 5 6 7 8 show ?thesis by blast
qed

theorem existence_consistency_witness:
  \<open>AssetExists (fst (CreateAsset [] ''a'' ''kiwi'' ''small'' ''Bob'' ''cup'' ''5'')) ''a''
   \<and> snd (UpdateAsset [(''a'', ''{"Size":"big"}'')] ''a'' ''mint'') = Inr ()
   \<and> AssetExists (fst (UpdateAsset [(''a'', ''{"Size":"big"}'')] ''a'' ''mint'')) ''a''
   \<and> snd (DeleteAsset [(''a'', ''{"Size":"big"}'')] ''a'') = Inr ()
   \<and> \<not> AssetExists (fst (DeleteAsset [(''a'', ''{"Size":"big"}'')] ''a'')) ''a''
   \<and> getState [] ''a'' = None
   \<and> \<not> AssetExists [] ''a''
   \<and> ReadAsset [] ''a'' = Inl (NotFound ''a'')\<close>
proof -
  have u: \<open>snd (UpdateAsset [(''a'', ''{"Size":"big"}'')] ''a'' ''mint'') = Inr ()\<close>
    by code_simp
  have d: \<open>snd (DeleteAsset [(''a'', ''{"Size":"big"}'')] ''a'') = Inr ()\<close>
    by code_simp
  have g: "getState [] ''a'' = None" by (simp add: getState_def)
  show ?thesis
    using u d g
      existence_consistency [of "[]" "''a''" "''kiwi''" "''small''" "''Bob''" "''cup''" "''5''"]
      existence_consistency [of \<open>[(''a'', ''{"Size":"big"}'')]\<close> "''a''" "''mint''"]
    by blast
qed

text \<open>
  Claim C8 (lenient scan). \<^verbatim>\<open>GetAllAssets\<close> produces one record for every stored entry,
  in scan order, whatever is stored. Where the stored text is outside the JSON grammar, so
  that \<^verbatim>\<open>JSON.parse\<close> throws, the record is the text itself, a string, and the scan goes
  on; where the text has a value, the record is that value. The text returned is the array
  of these records in scan order, a malformed entry written as a JSON string between its
  neighbours. An entry of the grammar whose value lies outside the model is marked, and so
  is the text returned then.
\<close>

theorem lenient_scan:
  "length (all_results s) = length (getStateByRange s)
   \<and> (\<forall>i < length (getStateByRange s).
         (\<not> JSON_syntax (snd (getStateByRange s ! i))
            \<longrightarrow> all_results s ! i = Inr (JStr (snd (getStateByRange s ! i))))
         \<and> (\<forall>r. JSON_parse (snd (getStateByRange s ! i)) = Some r
                \<longrightarrow> JSON_syntax (snd (getStateByRange s ! i)) \<and> all_results s ! i = Inr r)
         \<and> (JSON_syntax (snd (getStateByRange s ! i)) \<and> JSON_parse (snd (getStateByRange s ! i)) = None
            \<longrightarrow> all_results s ! i = Inl Unmodelled))
   \<and> GetAllAssets s
       = (if \<exists>kv \<in> set (getStateByRange s). JSON_syntax (snd kv) \<and> JSON_parse (snd kv) = None
          then Inl Unmodelled
          else Inr (Some (''['' @ join_comma (map (\<lambda>kv. case JSON_parse (snd kv) of
                                                            Some r \<Rightarrow> the (JSON_stringify r)
                                                          | None \<Rightarrow> quote (snd kv))
                                                (getStateByRange s)) @ '']'')))"
proof -
  let ?beyond = "\<lambda>t. JSON_syntax t \<and> JSON_parse t = None"
  have rec: "parse_record t = (case JSON_parse t of
                                 Some r \<Rightarrow> Inr r
                               | None \<Rightarrow> if JSON_syntax t then Inl Unmodelled else Inr (JStr t))" for t
    by (simp add: parse_record_def JSON_parse_error_def split: option.splits)
  have 1: "length (all_results s) = length (getStateByRange s)"
    by (simp add: all_results_map)
  have 2: "\<forall>i < length (getStateByRange s).
         (\<not> JSON_syntax (snd (getStateByRange s ! i))
            \<longrightarrow> all_results s ! i = Inr (JStr (snd (getStateByRange s ! i))))
         \<and> (\<forall>r. JSON_parse (snd (getStateByRange s ! i)) = Some r
                \<longrightarrow> JSON_syntax (snd (getStateByRange s ! i)) \<and> all_results s ! i = Inr r)
         \<and> (JSON_syntax (snd (getStateByRange s ! i)) \<and> JSON_parse (snd (getStateByRange s ! i)) = None
            \<longrightarrow> all_results s ! i = Inl Unmodelled)"
    by (simp add: all_results_map parse_record_raw parse_record_value parse_record_beyond
          JSON_parse_syntax)
  have mark: "Inl Unmodelled \<in> set (all_results s)
                \<longleftrightarrow> (\<exists>kv \<in> set (getStateByRange s). ?beyond (snd kv))"
    by (auto simp: all_results_map rec image_iff split: option.splits if_splits)
  have shown: "the (JSON_stringify (projr (parse_record t)))
               = (case JSON_parse t of Some r \<Rightarrow> the (JSON_stringify r) | None \<Rightarrow> quote t)"
    if "\<not> ?beyond t" for t
    using that by (cases "JSON_parse t") (auto simp: rec)
  have 3: "GetAllAssets s
       = (if \<exists>kv \<in> set (getStateByRange s). ?beyond (snd kv)
          then Inl Unmodelled
          else Inr (Some (''['' @ join_comma (map (\<lambda>kv. case JSON_parse (snd kv) of
                                                            Some r \<Rightarrow> the (JSON_stringify r)
                                                          | None \<Rightarrow> quote (snd kv))
                                                (getStateByRange s)) @ '']'')))"
  proof (cases "\<exists>kv \<in> set (getStateByRange s). ?beyond (snd kv)")
    case True
    then have "Inl Unmodelled \<in> set (all_results s)" by (simp only: mark)
    with True show ?thesis by (simp only: GetAllAssets_text if_True)
  next
    case False
    then have n: "Inl Unmodelled \<notin> set (all_results s)" by (simp only: mark) simp
    from False have "\<not> ?beyond (snd kv)" if "kv \<in> set (getStateByRange s)" for kv
      using that by blast
    then have "map (\<lambda>kv. the (JSON_stringify (projr (parse_record (snd kv))))) (getStateByRange s)
          = map (\<lambda>kv. case JSON_parse (snd kv) of Some r \<Rightarrow> the (JSON_stringify r) | None \<Rightarrow> quote (snd kv))
              (getStateByRange s)"
      by (intro map_cong refl shown)
    with False n show ?thesis by (simp only: GetAllAssets_text if_False)
  qed
  from 1 2 3 show ?thesis by (intro conjI)
qed

theorem lenient_scan_witness:
  \<open>\<not> JSON_syntax ''{oops'' \<and> \<not> JSON_syntax ''[1.5,''
   \<and> getStateByRange [(''k2'', ''{oops''), (''k4'', ''[1.5,''), (''k1'', ''{"a":true}''), (''k3'', ''10.50'')]
       = [(''k1'', ''{"a":true}''), (''k2'', ''{oops''), (''k3'', ''10.50''), (''k4'', ''[1.5,'')]
   \<and> all_results [(''k2'', ''{oops''), (''k4'', ''[1.5,''), (''k1'', ''{"a":true}''), (''k3'', ''10.50'')]
       = [Inr (JObj [(''a'', JBool True)]), Inr (JStr ''{oops''), Inr (JDec 105 1), Inr (JStr ''[1.5,'')]
   \<and> GetAllAssets [(''k2'', ''{oops''), (''k4'', ''[1.5,''), (''k1'', ''{"a":true}''), (''k3'', ''10.50'')]
       = Inr (Some ''[{"a":true},"{oops",10.5,"[1.5,"]'')
   \<and> JSON_syntax ''{"a":true}'' \<and> JSON_syntax ''10.50''
   \<and> JSON_syntax ''[1e-7]'' \<and> JSON_parse ''[1e-7]'' = None
   \<and> all_results [(''k5'', ''[1e-7]'')] = [Inl Unmodelled]
   \<and> GetAllAssets [(''k5'', ''[1e-7]'')] = Inl Unmodelled\<close>
proof -
  let ?s = \<open>[(''k2'', ''{oops''), (''k4'', ''[1.5,''), (''k1'', ''{"a":true}''), (''k3'', ''10.50'')]\<close>
  have r: \<open>getStateByRange ?s
       = [(''k1'', ''{"a":true}''), (''k2'', ''{oops''), (''k3'', ''10.50''), (''k4'', ''[1.5,'')]\<close>
    by code_simp
  have p: \<open>JSON_parse ''{"a":true}'' = Some (JObj [(''a'', JBool True)])\<close>
      \<open>JSON_parse ''{oops'' = None\<close> \<open>JSON_parse ''10.50'' = Some (JDec 105 1)\<close>
      \<open>JSON_parse ''[1.5,'' = None\<close>
    by code_simp+
  have g: \<open>\<not> JSON_syntax ''{oops''\<close> \<open>\<not> JSON_syntax ''[1.5,''\<close>
    by code_simp+
  have j: \<open>JSON_stringify (JObj [(''a'', JBool True)]) = Some ''{"a":true}''\<close>
      \<open>quote ''{oops'' = ''"{oops"''\<close> \<open>quote ''[1.5,'' = ''"[1.5,"''\<close>
    by code_simp+
  have d: "JSON_stringify (JDec 105 1) = Some ''10.5''"
    by (simp add: decimal_to_string_def decimal_body_def digits.simps digit_char_table)
  note scan = lenient_scan [of ?s, unfolded r]
  have l: "length (all_results ?s) = 4" using scan by simp
  have each: "(\<not> JSON_syntax t \<longrightarrow> all_results ?s ! i = Inr (JStr t))
              \<and> (\<forall>v. JSON_parse t = Some v \<longrightarrow> JSON_syntax t \<and> all_results ?s ! i = Inr v)"
    if "i < 4"
      and \<open>t = snd ([(''k1'', ''{"a":true}''), (''k2'', ''{oops''), (''k3'', ''10.50''), (''k4'', ''[1.5,'')] ! i)\<close>
    for i t
    using scan that by simp
  have e: "all_results ?s ! 0 = Inr (JObj [(''a'', JBool True)])"
      "all_results ?s ! 1 = Inr (JStr ''{oops'')"
      "all_results ?s ! 2 = Inr (JDec 105 1)"
      "all_results ?s ! 3 = Inr (JStr ''[1.5,'')"
    using each [of 0] each [of 1] each [of 2] each [of 3] p g by simp_all
  have t: \<open>GetAllAssets ?s = Inr (Some ''[{"a":true},"{oops",10.5,"[1.5,"]'')\<close>
    using scan p g j d by simp
  have "all_results ?s = [Inr (JObj [(''a'', JBool True)]), Inr (JStr ''{oops''), Inr (JDec 105 1),
                           Inr (JStr ''[1.5,'')]"
  proof (intro nth_equalityI)
    show "length (all_results ?s)
            = length [Inr (JObj [(''a'', JBool True)]), Inr (JStr ''{oops''), Inr (JDec 105 1),
                      Inr (JStr ''[1.5,'') :: error + jsval]"
      using l by simp
    fix i assume "i < length (all_results ?s)"
    with l have "i = 0 \<or> i = 1 \<or> i = 2 \<or> i = 3" by auto
    with e show "all_results ?s ! i
                   = [Inr (JObj [(''a'', JBool True)]), Inr (JStr ''{oops''), Inr (JDec 105 1),
                      Inr (JStr ''[1.5,'')] ! i"
      by auto
  qed
  moreover have \<open>JSON_syntax ''{"a":true}''\<close> \<open>JSON_syntax ''10.50''\<close>
    using each [of 0] each [of 2] p by simp_all
  moreover have b: \<open>JSON_syntax ''[1e-7]''\<close> \<open>JSON_parse ''[1e-7]'' = None\<close>
    by code_simp+
  moreover have r5: \<open>getStateByRange [(''k5'', ''[1e-7]'')] = [(''k5'', ''[1e-7]'')]\<close>
    by code_simp
  have "all_results [(''k5'', ''[1e-7]'')] ! 0 = Inl Unmodelled"
      "length (all_results [(''k5'', ''[1e-7]'')]) = 1"
      "GetAllAssets [(''k5'', ''[1e-7]'')] = Inl Unmodelled"
    using lenient_scan [of \<open>[(''k5'', ''[1e-7]'')]\<close>, unfolded r5] b by simp_all
  then have "all_results [(''k5'', ''[1e-7]'')] = [Inl Unmodelled]"
      "GetAllAssets [(''k5'', ''[1e-7]'')] = Inl Unmodelled"
    by (auto simp: length_Suc_conv)
  ultimately show ?thesis using g r t by simp
qed

text \<open>
  Claim C9 as stated fails: the text \<^verbatim>\<open>CreateAsset\<close> returns lists the fields in the order
  of the object literal, the text it stores lists them in sorted order.
\<close>

theorem create_return_not_canonical:
  \<open>snd (CreateAsset [] ''icecream10'' ''vanilla'' ''small'' ''Carmen'' ''sugar'' ''6000'')
     = Inr (Some ''{"ID":"icecream10","Flavor":"vanilla","Size":"small","Client":"Carmen","Cone":"sugar","Value":"6000"}'')
   \<and> getState (fst (CreateAsset [] ''icecream10'' ''vanilla'' ''small'' ''Carmen'' ''sugar'' ''6000''))
        ''icecream10''
     = Some ''{"Client":"Carmen","Cone":"sugar","Flavor":"vanilla","ID":"icecream10","Size":"small","Value":"6000"}''
   \<and> snd (CreateAsset [] ''icecream10'' ''vanilla'' ''small'' ''Carmen'' ''sugar'' ''6000'')
     \<noteq> Inr (getState (fst (CreateAsset [] ''icecream10'' ''vanilla'' ''small'' ''Carmen'' ''sugar'' ''6000''))
              ''icecream10'')\<close>
proof -
  have "\<not> AssetExists [] ''icecream10''" by (simp add: AssetExists_def getState_def)
  then show ?thesis by (simp add: icecream10_created getState_putState)
qed

text \<open>
  Claim C9, amended (the value \<^verbatim>\<open>CreateAsset\<close> returns). A successful \<^verbatim>\<open>CreateAsset\<close>
  returns the \<^verbatim>\<open>JSON.stringify\<close> text of the new record, its fields in the order ID, Flavor,
  Size, Client, Cone, Value. The text parses to that record, which is logically the same
  record as the one the stored canonical text parses to; the two texts are never equal.
\<close>

theorem create_return_value:
  assumes "\<not> AssetExists s k"
  shows "\<exists>t r. CreateAsset s k f sz c co v = (putState s k t, Inr (Some r))
           \<and> getState (putState s k t) k = Some t
           \<and> stringify (sortKeysRecursive (JObj
                 [(''ID'', JStr k), (''Flavor'', JStr f), (''Size'', JStr sz),
                  (''Client'', JStr c), (''Cone'', JStr co), (''Value'', JStr v)])) = Some t
           \<and> JSON_stringify (JObj
                 [(''ID'', JStr k), (''Flavor'', JStr f), (''Size'', JStr sz),
                  (''Client'', JStr c), (''Cone'', JStr co), (''Value'', JStr v)]) = Some r
           \<and> JSON_parse r = Some (JObj
                 [(''ID'', JStr k), (''Flavor'', JStr f), (''Size'', JStr sz),
                  (''Client'', JStr c), (''Cone'', JStr co), (''Value'', JStr v)])
           \<and> JSON_parse t = Some (JObj
                 [(''Client'', JStr c), (''Cone'', JStr co), (''Flavor'', JStr f),
                  (''ID'', JStr k), (''Size'', JStr sz), (''Value'', JStr v)])
           \<and> same_value
                (JObj [(''ID'', JStr k), (''Flavor'', JStr f), (''Size'', JStr sz),
                       (''Client'', JStr c), (''Cone'', JStr co), (''Value'', JStr v)])
                (JObj [(''Client'', JStr c), (''Cone'', JStr co), (''Flavor'', JStr f),
                       (''ID'', JStr k), (''Size'', JStr sz), (''Value'', JStr v)])
           \<and> r \<noteq> t"
proof -
  have "same_value
          (JObj [(''ID'', JStr k), (''Flavor'', JStr f), (''Size'', JStr sz),
                 (''Client'', JStr c), (''Cone'', JStr co), (''Value'', JStr v)])
          (JObj [(''Client'', JStr c), (''Cone'', JStr co), (''Flavor'', JStr f),
                 (''ID'', JStr k), (''Size'', JStr sz), (''Value'', JStr v)])"
    by (auto simp: obj_get_def)
  then show ?thesis
    using CreateAsset_decoded [OF assms, of f sz c co v]
    by (auto simp: getState_putState simp del: same_value.simps)
qed

theorem create_return_value_witness:
  \<open>\<not> AssetExists [] ''icecream10''
   \<and> CreateAsset [] ''icecream10'' ''vanilla'' ''small'' ''Carmen'' ''sugar'' ''6000''
     = (putState [] ''icecream10''
          ''{"Client":"Carmen","Cone":"sugar","Flavor":"vanilla","ID":"icecream10","Size":"small","Value":"6000"}'',
        Inr (Some ''{"ID":"icecream10","Flavor":"vanilla","Size":"small","Client":"Carmen","Cone":"sugar","Value":"6000"}''))
   \<and> JSON_parse ''{"ID":"icecream10","Flavor":"vanilla","Size":"small","Client":"Carmen","Cone":"sugar","Value":"6000"}''
     = Some (JObj [(''ID'', JStr ''icecream10''), (''Flavor'', JStr ''vanilla''), (''Size'', JStr ''small''),
                   (''Client'', JStr ''Carmen''), (''Cone'', JStr ''sugar''), (''Value'', JStr ''6000'')])
   \<and> JSON_parse ''{"Client":"Carmen","Cone":"sugar","Flavor":"vanilla","ID":"icecream10","Size":"small","Value":"6000"}''
     = Some (JObj [(''Client'', JStr ''Carmen''), (''Cone'', JStr ''sugar''), (''Flavor'', JStr ''vanilla''),
                   (''ID'', JStr ''icecream10''), (''Size'', JStr ''small''), (''Value'', JStr ''6000'')])\<close>
proof -
  have n: "\<not> AssetExists [] ''icecream10''" by (simp add: AssetExists_def getState_def)
  have e: \<open>stringify (sortKeysRecursive (JObj
              [(''ID'', JStr ''icecream10''), (''Flavor'', JStr ''vanilla''), (''Size'', JStr ''small''),
               (''Client'', JStr ''Carmen''), (''Cone'', JStr ''sugar''), (''Value'', JStr ''6000'')]))
            = Some ''{"Client":"Carmen","Cone":"sugar","Flavor":"vanilla","ID":"icecream10","Size":"small","Value":"6000"}''\<close>
    \<open>JSON_stringify (JObj
              [(''ID'', JStr ''icecream10''), (''Flavor'', JStr ''vanilla''), (''Size'', JStr ''small''),
               (''Client'', JStr ''Carmen''), (''Cone'', JStr ''sugar''), (''Value'', JStr ''6000'')])
            = Some ''{"ID":"icecream10","Flavor":"vanilla","Size":"small","Client":"Carmen","Cone":"sugar","Value":"6000"}''\<close>
    unfolding canonical_created plain_created by (simp_all add: quote_def escape_char_def)
  show ?thesis
    using n create_return_value [OF n, of "''vanilla''" "''small''" "''Carmen''" "''sugar''" "''6000''"]
    unfolding e by auto
qed

text \<open>
  Claim C10 (the type of \<^verbatim>\<open>Value\<close> differs by creation path). A record written by
  \<^verbatim>\<open>CreateAsset\<close> holds the caller's string under \<^verbatim>\<open>Value\<close>; every record seeded by
  \<^verbatim>\<open>InitLedger\<close> holds a number. So two records with the same field values, one with the
  value as a string and one with it as a number, have different canonical encodings, with
  or without the \<^verbatim>\<open>docType\<close> of the seeded one.
\<close>

theorem value_type_by_creation_path:
  "(\<not> AssetExists s k \<longrightarrow>
      (\<exists>t D. getState (fst (CreateAsset s k f sz c co v)) k = Some t
             \<and> JSON_parse t = Some (JObj D) \<and> obj_get D ''Value'' = JStr v))
   \<and> (\<forall>a \<in> set seed_assets.
        \<exists>k' n t D. obj_get a ''ID'' = JStr k' \<and> obj_get a ''Value'' = JNum n
             \<and> getState (fst (InitLedger s)) k' = Some t
             \<and> JSON_parse t = Some (JObj D) \<and> obj_get D ''Value'' = JNum n)
   \<and> stringify (sortKeysRecursive (JObj
         [(''ID'', JStr k), (''Flavor'', JStr f), (''Size'', JStr sz),
          (''Client'', JStr c), (''Cone'', JStr co), (''Value'', JStr v)]))
       \<noteq> stringify (sortKeysRecursive (JObj
         [(''ID'', JStr k), (''Flavor'', JStr f), (''Size'', JStr sz),
          (''Client'', JStr c), (''Cone'', JStr co), (''Value'', JNum n)]))
   \<and> stringify (sortKeysRecursive (JObj
         [(''ID'', JStr k), (''Flavor'', JStr f), (''Size'', JStr sz),
          (''Client'', JStr c), (''Cone'', JStr co), (''Value'', JStr v)]))
       \<noteq> stringify (sortKeysRecursive (JObj (obj_set
         [(''ID'', JStr k), (''Flavor'', JStr f), (''Size'', JStr sz),
          (''Client'', JStr c), (''Cone'', JStr co), (''Value'', JNum n)]
         ''docType'' (JStr ''asset''))))"
proof (intro conjI impI ballI)
  assume "\<not> AssetExists s k"
  from CreateAsset_decoded [OF this, of f sz c co v] obtain t r where
    "CreateAsset s k f sz c co v = (putState s k t, Inr (Some r))"
    "JSON_parse t = Some (JObj [(''Client'', JStr c), (''Cone'', JStr co), (''Flavor'', JStr f),
                  (''ID'', JStr k), (''Size'', JStr sz), (''Value'', JStr v)])"
    by blast
  then show "\<exists>t D. getState (fst (CreateAsset s k f sz c co v)) k = Some t
             \<and> JSON_parse t = Some (JObj D) \<and> obj_get D ''Value'' = JStr v"
    by (simp add: getState_putState obj_get_def)
next
  fix a assume a: "a \<in> set seed_assets"
  let ?a' = "obj_set a ''docType'' (JStr ''asset'')"
  from a obtain k' n where kn: "obj_get a ''ID'' = JStr k'" "obj_get a ''Value'' = JNum n"
    and d: "distinct (map fst ?a')" and p: "\<forall>kv \<in> set ?a'. snd kv = JUndefined \<or> plain (snd kv)"
    by (auto simp: seed_assets_def obj_get_def)
  from canonical_decode [OF d p] obtain t D where
    t: "stringify (sortKeysRecursive (JObj ?a')) = Some t"
    and D: "JSON_parse t = Some (JObj D)" "\<And>g. obj_get D g = sortKeysRecursive (obj_get ?a' g)"
    by blast
  from InitLedger_seeds [of s] a kn(1) have "getState (fst (InitLedger s)) k' = Some t"
    unfolding t [symmetric] by auto
  moreover have "obj_get D ''Value'' = JNum n" by (simp add: D(2) obj_get_obj_set kn(2))
  ultimately show "\<exists>k' n t D. obj_get a ''ID'' = JStr k' \<and> obj_get a ''Value'' = JNum n
             \<and> getState (fst (InitLedger s)) k' = Some t
             \<and> JSON_parse t = Some (JObj D) \<and> obj_get D ''Value'' = JNum n"
    using kn D(1) by blast
next
  show "stringify (sortKeysRecursive (JObj
         [(''ID'', JStr k), (''Flavor'', JStr f), (''Size'', JStr sz),
          (''Client'', JStr c), (''Cone'', JStr co), (''Value'', JStr v)]))
       \<noteq> stringify (sortKeysRecursive (JObj
         [(''ID'', JStr k), (''Flavor'', JStr f), (''Size'', JStr sz),
          (''Client'', JStr c), (''Cone'', JStr co), (''Value'', JNum n)]))"
    using quote_not_number [of v "''}''" n "''}''"] by (simp add: quote_keys)
next
  show "stringify (sortKeysRecursive (JObj
         [(''ID'', JStr k), (''Flavor'', JStr f), (''Size'', JStr sz),
          (''Client'', JStr c), (''Cone'', JStr co), (''Value'', JStr v)]))
       \<noteq> stringify (sortKeysRecursive (JObj (obj_set
         [(''ID'', JStr k), (''Flavor'', JStr f), (''Size'', JStr sz),
          (''Client'', JStr c), (''Cone'', JStr co), (''Value'', JNum n)]
         ''docType'' (JStr ''asset''))))"
    using quote_not_number [of v "''}''" n] by (simp add: quote_keys)
qed

theorem value_type_by_creation_path_witness:
  \<open>\<not> AssetExists [] ''icecream10''
   \<and> (\<exists>t D. getState (fst (CreateAsset [] ''icecream10'' ''vanilla'' ''small'' ''Carmen'' ''sugar'' ''6000''))
                ''icecream10'' = Some t
          \<and> JSON_parse t = Some (JObj D) \<and> obj_get D ''Value'' = JStr ''6000'')
   \<and> [(''ID'', JStr ''icecream2''), (''Flavor'', JStr ''vanilla''), (''Size'', JStr ''small''),
       (''Client'', JStr ''Martha''), (''Cone'', JStr ''waffle''), (''Value'', JNum 6000)]
      \<in> set seed_assets
   \<and> (\<exists>t D. getState (fst (InitLedger [])) ''icecream2'' = Some t
          \<and> JSON_parse t = Some (JObj D) \<and> obj_get D ''Value'' = JNum 6000)
   \<and> stringify (sortKeysRecursive (JObj
         [(''ID'', JStr ''icecream2''), (''Flavor'', JStr ''vanilla''), (''Size'', JStr ''small''),
          (''Client'', JStr ''Martha''), (''Cone'', JStr ''waffle''), (''Value'', JStr ''6000'')]))
       \<noteq> stringify (sortKeysRecursive (JObj
         [(''ID'', JStr ''icecream2''), (''Flavor'', JStr ''vanilla''), (''Size'', JStr ''small''),
          (''Client'', JStr ''Martha''), (''Cone'', JStr ''waffle''), (''Value'', JNum 6000)]))\<close>
proof -
  let ?a = "[(''ID'', JStr ''icecream2''), (''Flavor'', JStr ''vanilla''), (''Size'', JStr ''small''),
             (''Client'', JStr ''Martha''), (''Cone'', JStr ''waffle''), (''Value'', JNum 6000)]"
  have n: "\<not> AssetExists [] ''icecream10''" by (simp add: AssetExists_def getState_def)
  have m: "?a \<in> set seed_assets" by (simp add: seed_assets_def)
  have g: "obj_get ?a ''ID'' = JStr ''icecream2''" "obj_get ?a ''Value'' = JNum 6000"
    by (simp_all add: obj_get_def)
  note th = value_type_by_creation_path
    [of "[]" "''icecream10''" "''vanilla''" "''small''" "''Carmen''" "''sugar''" "''6000''"]
  note th2 = value_type_by_creation_path
    [of "[]" "''icecream2''" "''vanilla''" "''small''" "''Martha''" "''waffle''" "''6000''" 6000]
  from th n have 1: \<open>\<exists>t D. getState (fst (CreateAsset [] ''icecream10'' ''vanilla'' ''small'' ''Carmen'' ''sugar'' ''6000''))
                ''icecream10'' = Some t
          \<and> JSON_parse t = Some (JObj D) \<and> obj_get D ''Value'' = JStr ''6000''\<close>
    by blast
  from th m have "\<exists>k' n t D. obj_get ?a ''ID'' = JStr k' \<and> obj_get ?a ''Value'' = JNum n
             \<and> getState (fst (InitLedger [])) k' = Some t
             \<and> JSON_parse t = Some (JObj D) \<and> obj_get D ''Value'' = JNum n"
    by blast
  then have 2: "\<exists>t D. getState (fst (InitLedger [])) ''icecream2'' = Some t
          \<and> JSON_parse t = Some (JObj D) \<and> obj_get D ''Value'' = JNum 6000"
    unfolding g by auto
  from th2 have 3: "stringify (sortKeysRecursive (JObj
         [(''ID'', JStr ''icecream2''), (''Flavor'', JStr ''vanilla''), (''Size'', JStr ''small''),
          (''Client'', JStr ''Martha''), (''Cone'', JStr ''waffle''), (''Value'', JStr ''6000'')]))
       \<noteq> stringify (sortKeysRecursive (JObj ?a))"
    by blast
  from n 1 m 2 3 show ?thesis by blast
qed

end
